theory Spec2Isabelle
  imports Main "HOL-Library.Multiset" "HOL-Library.Char_ord" "HOL-Library.List_Lexorder"
begin

section \<open>Record linkage of the NADAC pricing data with the openFDA NDC directory\<close>

text \<open>
  A shallow embedding of the raw processor (the script that reads the Medicaid NADAC
  table and the openFDA NDC directory and writes the enriched data set, its search
  index, its chunks with their manifest, and the description-classification lookup).

  Strings are \<^typ>\<open>string\<close>; the model reads them as ASCII text, which is what NDC codes
  and the drug names of both data sets are made of: lower-casing touches \<open>A\<close>..\<open>Z\<close> only
  and the white space of the regular expression class \<open>\\s\<close> is the six ASCII white space
  characters. A JavaScript \<open>Map\<close> is an association list in insertion order, a
  \<open>Set\<close> of strings a \<^typ>\<open>string set\<close>, an absent (\<open>undefined\<close>) property \<^const>\<open>None\<close>.
\<close>

subsection \<open>Characters and strings\<close>

definition isDigit :: "char \<Rightarrow> bool" where
  "isDigit c = (c \<in> set ''0123456789'')"

definition isLowerAlnum :: "char \<Rightarrow> bool" where
  \<comment> \<open>the character class \<open>[a-z0-9]\<close>\<close>
  "isLowerAlnum c = (c \<in> set ''abcdefghijklmnopqrstuvwxyz0123456789'')"

definition isSpace :: "char \<Rightarrow> bool" where
  \<comment> \<open>the class \<open>\\s\<close> on ASCII: space, tab, line feed, vertical tab, form feed, carriage return\<close>
  "isSpace c = (c \<in> {CHR '' '', CHR 0x09, CHR 0x0A, CHR 0x0B, CHR 0x0C, CHR 0x0D})"

definition toLowerChar :: "char \<Rightarrow> char" where
  "toLowerChar c =
     (case map_of (zip ''ABCDEFGHIJKLMNOPQRSTUVWXYZ'' ''abcdefghijklmnopqrstuvwxyz'') c of
        Some l \<Rightarrow> l
      | None \<Rightarrow> c)"

definition toLowerCase :: "string \<Rightarrow> string" where
  "toLowerCase s = map toLowerChar s"

definition trim :: "string \<Rightarrow> string" where
  "trim s = rev (dropWhile isSpace (rev (dropWhile isSpace s)))"

text \<open>\<open>s.replace(/\\s+/g, ' ')\<close>: every maximal run of white space becomes one space. The flag
  says that the previous character was white space (the run has been replaced already).\<close>

fun collapseSpaces :: "bool \<Rightarrow> string \<Rightarrow> string" where
  "collapseSpaces inRun [] = []"
| "collapseSpaces inRun (c # cs) =
     (if isSpace c then (if inRun then collapseSpaces True cs else CHR '' '' # collapseSpaces True cs)
      else c # collapseSpaces False cs)"

text \<open>\<open>s.split(/[^a-z0-9]+/)\<close>: the pieces between maximal runs of separator characters,
  with the empty pieces JavaScript yields at a leading or trailing separator and for the
  empty string. \<open>cur\<close> is the piece being read, \<open>inSep\<close> says that a separator run is being
  skipped.\<close>

fun splitNonAlnum :: "bool \<Rightarrow> string \<Rightarrow> string \<Rightarrow> string list" where
  "splitNonAlnum inSep cur [] = [cur]"
| "splitNonAlnum inSep cur (c # cs) =
     (if isLowerAlnum c then splitNonAlnum False (cur @ [c]) cs
      else if inSep then splitNonAlnum True cur cs
      else cur # splitNonAlnum True [] cs)"

definition normalizeWhitespaceLower :: "string \<Rightarrow> string" where
  "normalizeWhitespaceLower s =
     (if s = [] then [] else trim (collapseSpaces False (toLowerCase s)))"

definition tokenizeWords :: "string \<Rightarrow> string list" where
  "tokenizeWords s =
     filter (\<lambda>t. t \<noteq> [] \<and> 3 \<le> length t) (splitNonAlnum False [] (normalizeWhitespaceLower s))"

definition normalizeMedNdc :: "string \<Rightarrow> string" where
  \<comment> \<open>\<open>ndc.toString().replace(/\\D+/g, '').trim()\<close>\<close>
  "normalizeMedNdc ndc = (if ndc = [] then [] else trim (filter isDigit ndc))"

definition openFdaDigitsKeepZeros :: "string \<Rightarrow> string" where
  \<comment> \<open>\<open>replace(/-/g, '').replace(/\\D+/g, '')\<close>\<close>
  "openFdaDigitsKeepZeros productNdc =
     (if productNdc = [] then []
      else filter isDigit (filter (\<lambda>c. c \<noteq> CHR ''-'') productNdc))"

definition openFdaHyphenZeroFill :: "string \<Rightarrow> string" where
  \<comment> \<open>\<open>replace(/-/g, '0').replace(/\\D+/g, '')\<close>\<close>
  "openFdaHyphenZeroFill productNdc =
     (if productNdc = [] then []
      else filter isDigit (map (\<lambda>c. if c = CHR ''-'' then CHR ''0'' else c) productNdc))"

subsection \<open>Maps in insertion order\<close>

text \<open>\<open>Map.prototype.get\<close> is \<^const>\<open>map_of\<close>. \<open>Map.prototype.set\<close> replaces the value of a key
  that is present, where it stands, and appends a new key at the end.\<close>

fun mapSet :: "('k \<times> 'v) list \<Rightarrow> 'k \<Rightarrow> 'v \<Rightarrow> ('k \<times> 'v) list" where
  "mapSet [] k v = [(k, v)]"
| "mapSet ((k', v') # m) k v = (if k' = k then (k, v) # m else (k', v') # mapSet m k v)"

definition addToMapArray :: "('k \<times> 'v list) list \<Rightarrow> 'k \<Rightarrow> 'v \<Rightarrow> ('k \<times> 'v list) list" where
  \<comment> \<open>\<open>arr.push(value)\<close> changes the array held by the map; the key keeps its place\<close>
  "addToMapArray m key val =
     (case map_of m key of
        Some arr \<Rightarrow> mapSet m key (arr @ [val])
      | None \<Rightarrow> mapSet m key [val])"

subsection \<open>The reference index\<close>

datatype variantType = Digits | ZeroFill

datatype matchMode = Forward | Reverse

text \<open>One openFDA item as read from the JSON file: either spelling of a property may be
  present. The routes and the active ingredients of an item only feed display fields of a
  match and are left out of the model.\<close>

record openFdaItem =
  product_ndc :: "string option"
  item_productNdc :: "string option"
  brand_name :: "string option"
  item_brandName :: "string option"
  generic_name :: "string option"
  item_genericName :: "string option"
  dosage_form :: "string option"
  item_dosageForm :: "string option"
  labeler_name :: "string option"
  item_labelerName :: "string option"

record openFdaEntry =
  e_productNdc :: string
  ndcDigits :: string
  ndcZeroFill :: string
  e_brandName :: string
  e_genericName :: string
  e_dosageForm :: string
  e_labelerName :: string

record indexRec =
  idx :: nat
  variant :: string
  vtype :: variantType

type_synonym variantBucket = "(string \<times> indexRec list) list"
type_synonym lengthIndex = "(nat \<times> variantBucket) list"

record openIdx =
  entries :: "openFdaEntry list"
  ndcByLength :: lengthIndex

definition strOr :: "string option \<Rightarrow> string option \<Rightarrow> string" where
  \<comment> \<open>\<open>a || b || ''\<close> on string properties: the empty string and an absent one are falsy\<close>
  "strOr a b =
     (case a of
        Some s \<Rightarrow> (if s \<noteq> [] then s else (case b of Some t \<Rightarrow> t | None \<Rightarrow> []))
      | None \<Rightarrow> (case b of Some t \<Rightarrow> t | None \<Rightarrow> []))"

definition toEntry :: "openFdaItem \<Rightarrow> openFdaEntry" where
  "toEntry item =
     (let productNdc = strOr (product_ndc item) (item_productNdc item) in
      \<lparr> e_productNdc = productNdc,
        ndcDigits = openFdaDigitsKeepZeros productNdc,
        ndcZeroFill = openFdaHyphenZeroFill productNdc,
        e_brandName = strOr (brand_name item) (item_brandName item),
        e_genericName = strOr (generic_name item) (item_genericName item),
        e_dosageForm = strOr (dosage_form item) (item_dosageForm item),
        e_labelerName = strOr (labeler_name item) (item_labelerName item) \<rparr>)"

text \<open>The body of the \<open>if (!seen.has(cur))\<close> block: the bucket of the length of \<open>cur\<close> is
  created when it is missing, and the record is appended to the array of \<open>cur\<close> there.\<close>

definition indexInsert :: "lengthIndex \<Rightarrow> string \<Rightarrow> indexRec \<Rightarrow> lengthIndex" where
  "indexInsert byLen cur r =
     (let L = length cur in
      case map_of byLen L of
        None \<Rightarrow> mapSet byLen L (addToMapArray [] cur r)
      | Some mapL \<Rightarrow> mapSet byLen L (addToMapArray mapL cur r))"

definition visitVariant ::
  "nat \<Rightarrow> variantType \<Rightarrow> string \<Rightarrow> string set \<times> lengthIndex \<Rightarrow> string set \<times> lengthIndex" where
  "visitVariant i vt cur st =
     (case st of (seen, byLen) \<Rightarrow>
        if cur \<notin> seen
        then (insert cur seen, indexInsert byLen cur \<lparr> idx = i, variant = cur, vtype = vt \<rparr>)
        else (seen, byLen))"

text \<open>The \<open>while (true)\<close> loop: index \<open>cur\<close>, stop at five characters or fewer or at a first
  character other than \<open>0\<close>, otherwise go on with \<open>cur.slice(1)\<close>.\<close>

fun stripLoop ::
  "nat \<Rightarrow> variantType \<Rightarrow> string \<Rightarrow> string set \<times> lengthIndex \<Rightarrow> string set \<times> lengthIndex" where
  "stripLoop i vt [] st = visitVariant i vt [] st"
| "stripLoop i vt (c # cs) st =
     (let st' = visitVariant i vt (c # cs) st in
      if length (c # cs) \<le> 5 then st'
      else if c \<noteq> CHR ''0'' then st'
      else stripLoop i vt cs st')"

definition indexVariant ::
  "nat \<Rightarrow> variantType \<Rightarrow> string \<Rightarrow> string set \<times> lengthIndex \<Rightarrow> string set \<times> lengthIndex" where
  \<comment> \<open>\<open>if (!v) return;\<close> then the loop\<close>
  "indexVariant i vt v st = (if v = [] then st else stripLoop i vt v st)"

definition indexEntry :: "nat \<Rightarrow> openFdaEntry \<Rightarrow> lengthIndex \<Rightarrow> lengthIndex" where
  \<comment> \<open>one call of the \<open>entries.forEach\<close> callback: \<open>seen\<close> is new for every entry and
     shared by its two variants\<close>
  "indexEntry i e byLen =
     snd (indexVariant i ZeroFill (trim (ndcZeroFill e))
            (indexVariant i Digits (trim (ndcDigits e)) ({}, byLen)))"

fun indexEntries :: "nat \<Rightarrow> openFdaEntry list \<Rightarrow> lengthIndex \<Rightarrow> lengthIndex" where
  "indexEntries i [] byLen = byLen"
| "indexEntries i (e # es) byLen = indexEntries (Suc i) es (indexEntry i e byLen)"

definition buildOpenFdaIndexes :: "openFdaItem list \<Rightarrow> openIdx" where
  "buildOpenFdaIndexes openFdaArr =
     (let es = map toEntry openFdaArr in
      \<lparr> entries = es, ndcByLength = indexEntries 0 es [] \<rparr>)"

subsection \<open>The linkage resolver\<close>

record fdaMatch =
  productNdc :: string
  normalizedProductNdc :: string
  matchedVariantType :: variantType
  matchMode :: matchMode
  brandName :: string
  genericName :: string
  dosageForm :: "string option"
  labelerName :: "string option"
  bestMatch :: bool

definition orUndefined :: "string \<Rightarrow> string option" where
  \<comment> \<open>\<open>s || undefined\<close>\<close>
  "orUndefined s = (if s = [] then None else Some s)"

definition formatOpenFdaMatcher ::
  "openFdaEntry \<Rightarrow> string \<Rightarrow> variantType \<Rightarrow> matchMode \<Rightarrow> fdaMatch" where
  "formatOpenFdaMatcher e v vt mode =
     \<lparr> productNdc = e_productNdc e,
       normalizedProductNdc = v,
       matchedVariantType = vt,
       matchMode = mode,
       brandName = e_brandName e,
       genericName = e_genericName e,
       dosageForm = orUndefined (e_dosageForm e),
       labelerName = orUndefined (e_labelerName e),
       bestMatch = False \<rparr>"

text \<open>The signature \<open>idx + '|' + variant + '|' + vtype\<close> of an index record is a string in
  the source. The index number and the variant are digit strings and the hypothesis is one
  of two words, so the string determines the three parts, and the model keeps the triple.

  \<open>entries[idx]\<close> is read with \<^const>\<open>nth\<close>: every index record that
  \<open>buildOpenFdaIndexes\<close> stores carries the position of an entry of the list it returns
  (lemma \<open>buildOpenFdaIndexes_idx_in_range\<close> below), and the resolver is only ever called
  on such an index.\<close>

type_synonym matchSig = "nat \<times> string \<times> variantType"
type_synonym collectState = "fdaMatch list \<times> matchSig set"

definition pushRec :: "openFdaEntry list \<Rightarrow> matchMode \<Rightarrow> collectState \<Rightarrow> indexRec \<Rightarrow> collectState" where
  "pushRec es mode st r =
     (case st of (matches, seen) \<Rightarrow>
        let sig = (idx r, variant r, vtype r) in
        if sig \<in> seen then (matches, seen)
        else (matches @ [formatOpenFdaMatcher (es ! idx r) (variant r) (vtype r) mode],
              insert sig seen))"

definition pushRecs ::
  "openFdaEntry list \<Rightarrow> matchMode \<Rightarrow> indexRec list \<Rightarrow> collectState \<Rightarrow> collectState" where
  \<comment> \<open>\<open>for (const { idx, variant, vtype } of arr)\<close>\<close>
  "pushRecs es mode arr st = foldl (pushRec es mode) st arr"

definition forwardBucket ::
  "openFdaEntry list \<Rightarrow> string \<Rightarrow> nat \<Rightarrow> variantBucket \<Rightarrow> collectState \<Rightarrow> collectState" where
  \<comment> \<open>\<open>for (let i = 0; i <= medLen - L; i++)\<close>, with \<open>L \<le> medLen\<close>\<close>
  "forwardBucket es medDigits L mapL st =
     foldl (\<lambda>st i.
              case map_of mapL (take L (drop i medDigits)) of
                Some arr \<Rightarrow> pushRecs es Forward arr st
              | None \<Rightarrow> st)
       st [0..<Suc (length medDigits - L)]"

definition forwardPhase :: "openIdx \<Rightarrow> string \<Rightarrow> nat list \<Rightarrow> collectState \<Rightarrow> collectState" where
  \<comment> \<open>\<open>for (const L of forward)\<close>; a length of the list is a key of the map\<close>
  "forwardPhase openIdx medDigits forward st =
     foldl (\<lambda>st L.
              case map_of (ndcByLength openIdx) L of
                Some mapL \<Rightarrow> forwardBucket (entries openIdx) medDigits L mapL st
              | None \<Rightarrow> st)
       st forward"

fun strIncludes :: "string \<Rightarrow> string \<Rightarrow> bool" where
  \<comment> \<open>\<open>key.includes(pat)\<close>: \<open>pat\<close> occurs in \<open>key\<close> at some position\<close>
  "strIncludes [] pat = (pat = [])"
| "strIncludes (c # cs) pat = (take (length pat) (c # cs) = pat \<or> strIncludes cs pat)"

definition reverseBucket ::
  "openFdaEntry list \<Rightarrow> string \<Rightarrow> variantBucket \<Rightarrow> collectState \<Rightarrow> collectState" where
  \<comment> \<open>\<open>for (const [key, arr] of mapL.entries())\<close>\<close>
  "reverseBucket es medDigits mapL st =
     foldl (\<lambda>st (key, arr).
              if \<not> strIncludes key medDigits then st
              else pushRecs es Reverse arr st)
       st mapL"

definition reversePhase :: "openIdx \<Rightarrow> string \<Rightarrow> nat list \<Rightarrow> collectState \<Rightarrow> collectState" where
  "reversePhase openIdx medDigits reverse st =
     foldl (\<lambda>st L.
              case map_of (ndcByLength openIdx) L of
                Some mapL \<Rightarrow> reverseBucket (entries openIdx) medDigits mapL st
              | None \<Rightarrow> st)
       st reverse"

definition collectOpenFdaNdcMatches :: "string \<Rightarrow> openIdx \<Rightarrow> fdaMatch list" where
  "collectOpenFdaNdcMatches medNdcOriginal openIdx =
     (let medDigits = normalizeMedNdc medNdcOriginal in
      if medDigits = [] then []
      else
        let medLen = length medDigits;
            lengthsAsc = sort (map fst (ndcByLength openIdx));
            forward = filter (\<lambda>L. L \<le> medLen) lengthsAsc;
            st = forwardPhase openIdx medDigits forward ([], {})
        in if fst st \<noteq> [] then fst st
           else
             let reverse = filter (\<lambda>L. medLen < L) lengthsAsc
             in fst (reversePhase openIdx medDigits reverse st))"

subsection \<open>Semantic filter, best matches and the enriched records\<close>

record priceEntry =
  ndc_description :: string
  ndc :: string
  nadac_per_unit :: "string option"
  effective_date :: "string option"
  pricing_unit :: "string option"
  pharmacy_type_indicator :: "string option"
  otc :: "string option"
  explanation_code :: "string option"
  classification_for_rate_setting :: "string option"
  corresponding_generic_drug_nadac_per_unit :: "string option"
  corresponding_generic_drug_effective_date :: "string option"
  as_of_date :: "string option"

record enrichedRecord = priceEntry +
  fdaMatches :: "fdaMatch list option"

definition brandFilter :: "string \<Rightarrow> fdaMatch list \<Rightarrow> fdaMatch list" where
  \<comment> \<open>the second-stage check: a brand name that is not blank and shares a token with the
     description\<close>
  "brandFilter description matches =
     (let descTokens = set (tokenizeWords description) in
      filter (\<lambda>m.
                let hasBrand = (0 < length (normalizeWhitespaceLower (brandName m))) in
                if \<not> hasBrand then False
                else
                  let brandTokens = tokenizeWords (brandName m)
                  in list_ex (\<lambda>t. t \<in> descTokens) brandTokens)
        matches)"

definition variantLength :: "fdaMatch \<Rightarrow> nat" where
  \<comment> \<open>\<open>m && m.normalizedProductNdc ? String(m.normalizedProductNdc).length : 0\<close>\<close>
  "variantLength m = (if normalizedProductNdc m \<noteq> [] then length (normalizedProductNdc m) else 0)"

definition keepBest :: "fdaMatch list \<Rightarrow> fdaMatch list" where
  \<comment> \<open>keep only the matches of the longest variant and mark them\<close>
  "keepBest matches =
     (if matches \<noteq> [] then
        let lengths = filter (\<lambda>L. 0 < L) (map variantLength matches);
            maxLen = (if lengths \<noteq> [] then Max (set lengths) else 0)
        in map (\<lambda>m. m\<lparr> bestMatch := True \<rparr>) (filter (\<lambda>m. variantLength m = maxLen) matches)
      else matches)"

definition enrichRecord :: "openIdx \<Rightarrow> priceEntry \<Rightarrow> enrichedRecord" where
  \<comment> \<open>one round of the loop over \<open>uniqueMed\<close>\<close>
  "enrichRecord openIdx med =
     (let matches = collectOpenFdaNdcMatches (ndc med) openIdx;
          matches = brandFilter (ndc_description med) matches;
          matches = keepBest matches
      in if matches \<noteq> [] then
           \<lparr> ndc_description = ndc_description med,
             ndc = ndc med,
             nadac_per_unit = nadac_per_unit med,
             effective_date = effective_date med,
             pricing_unit = pricing_unit med,
             pharmacy_type_indicator = pharmacy_type_indicator med,
             otc = otc med,
             explanation_code = explanation_code med,
             classification_for_rate_setting = classification_for_rate_setting med,
             corresponding_generic_drug_nadac_per_unit = corresponding_generic_drug_nadac_per_unit med,
             corresponding_generic_drug_effective_date = corresponding_generic_drug_effective_date med,
             as_of_date = as_of_date med,
             fdaMatches = Some matches \<rparr>
         else
           \<lparr> ndc_description = ndc_description med,
             ndc = ndc med,
             nadac_per_unit = None,
             effective_date = None,
             pricing_unit = None,
             pharmacy_type_indicator = None,
             otc = None,
             explanation_code = None,
             classification_for_rate_setting = None,
             corresponding_generic_drug_nadac_per_unit = None,
             corresponding_generic_drug_effective_date = None,
             as_of_date = None,
             fdaMatches = None \<rparr>)"

definition enrich :: "openIdx \<Rightarrow> priceEntry list \<Rightarrow> enrichedRecord list" where
  \<comment> \<open>the array \<open>enriched\<close> of \<open>enrichMedicaidWithOpenFda\<close>: one record is pushed per entry\<close>
  "enrich openIdx uniqueMed = map (enrichRecord openIdx) uniqueMed"

subsection \<open>What the index holds\<close>

text \<open>The values \<open>cur\<close> takes in the \<open>while\<close> loop of the index builder, in order:
  the string itself, then the strings left after dropping leading zeros one at a time, as
  long as more than five characters are left to drop from.\<close>

fun strips :: "string \<Rightarrow> string list" where
  "strips [] = [[]]"
| "strips (c # cs) =
     (c # cs) # (if length (c # cs) \<le> 5 \<or> c \<noteq> CHR ''0'' then [] else strips cs)"

text \<open>The variants of one form of an entry: none for the empty form (\<open>if (!v) return\<close>).\<close>

definition variantsOf :: "string \<Rightarrow> string list" where
  "variantsOf v = (if v = [] then [] else strips v)"

text \<open>Every record of the index, with the length its bucket is keyed by and the string it
  is stored under.\<close>

definition bucketRecs :: "variantBucket \<Rightarrow> (string \<times> indexRec) list" where
  "bucketRecs b = concat (map (\<lambda>(k, arr). map (\<lambda>r. (k, r)) arr) b)"

definition indexRecs :: "lengthIndex \<Rightarrow> (nat \<times> string \<times> indexRec) list" where
  "indexRecs byLen = concat (map (\<lambda>(L, b). map (\<lambda>(k, r). (L, k, r)) (bucketRecs b)) byLen)"

text \<open>The records one entry contributes: its digits-only variants, then those zero-fill
  variants that are not digits-only variants as well.\<close>

definition stored :: "nat \<Rightarrow> variantType \<Rightarrow> string \<Rightarrow> nat \<times> string \<times> indexRec" where
  "stored i vt v = (length v, v, \<lparr> idx = i, variant = v, vtype = vt \<rparr>)"

definition entryRecs :: "nat \<Rightarrow> openFdaEntry \<Rightarrow> (nat \<times> string \<times> indexRec) list" where
  "entryRecs i e =
     (let ds = variantsOf (trim (ndcDigits e));
          zs = variantsOf (trim (ndcZeroFill e))
      in map (stored i Digits) ds @ map (stored i ZeroFill) (filter (\<lambda>v. v \<notin> set ds) zs))"

subsection \<open>Example items\<close>

text \<open>An item whose digits-only and zero-fill forms share variants (its labeler segment is
  all zeros), and the item of the scenario of the specification.\<close>

definition sharedFormsItem :: openFdaItem where
  "sharedFormsItem =
     \<lparr> product_ndc = Some ''0000-1234'', item_productNdc = None,
       brand_name = Some ''Foo'', item_brandName = None,
       generic_name = None, item_genericName = None,
       dosage_form = None, item_dosageForm = None,
       labeler_name = None, item_labelerName = None \<rparr>"

definition scenarioItem :: openFdaItem where
  "scenarioItem =
     \<lparr> product_ndc = Some ''00002-3231-30'', item_productNdc = None,
       brand_name = Some ''Foo'', item_brandName = None,
       generic_name = None, item_genericName = None,
       dosage_form = None, item_dosageForm = None,
       labeler_name = None, item_labelerName = None \<rparr>"

subsection \<open>The two phases of the resolver, each on its own\<close>

text \<open>The matches the forward loop of \<open>collectOpenFdaNdcMatches\<close> leaves in \<open>matches\<close>,
  and the matches the reverse loop collects when it starts from no match.\<close>

definition forwardMatches :: "string \<Rightarrow> openIdx \<Rightarrow> fdaMatch list" where
  "forwardMatches medNdcOriginal openIdx =
     (let medDigits = normalizeMedNdc medNdcOriginal;
          lengthsAsc = sort (map fst (ndcByLength openIdx));
          forward = filter (\<lambda>L. L \<le> length medDigits) lengthsAsc
      in fst (forwardPhase openIdx medDigits forward ([], {})))"

definition reverseMatches :: "string \<Rightarrow> openIdx \<Rightarrow> fdaMatch list" where
  "reverseMatches medNdcOriginal openIdx =
     (let medDigits = normalizeMedNdc medNdcOriginal;
          lengthsAsc = sort (map fst (ndcByLength openIdx));
          reverse = filter (\<lambda>L. length medDigits < L) lengthsAsc
      in fst (reversePhase openIdx medDigits reverse ([], {})))"

text \<open>Two reference entries and a price entry whose identifier contains a variant of both;
  only the second entry's brand name shares a word with the description.\<close>

definition exampleItems :: "openFdaItem list" where
  "exampleItems =
     [\<lparr> product_ndc = Some ''12345-678'', item_productNdc = None,
        brand_name = Some ''Zed'', item_brandName = None,
        generic_name = None, item_genericName = None,
        dosage_form = None, item_dosageForm = None,
        labeler_name = None, item_labelerName = None \<rparr>,
      \<lparr> product_ndc = Some ''2345-67'', item_productNdc = None,
        brand_name = Some ''Foo'', item_brandName = None,
        generic_name = None, item_genericName = None,
        dosage_form = None, item_dosageForm = None,
        labeler_name = None, item_labelerName = None \<rparr>]"

definition exampleMed :: priceEntry where
  "exampleMed =
     \<lparr> ndc_description = ''FOO 10 MG TABLET'',
       ndc = ''12345678'',
       nadac_per_unit = Some ''0.12'',
       effective_date = Some ''01/01/2024'',
       pricing_unit = Some ''EA'',
       pharmacy_type_indicator = Some ''C/I'',
       otc = Some ''N'',
       explanation_code = Some ''1'',
       classification_for_rate_setting = Some ''G'',
       corresponding_generic_drug_nadac_per_unit = None,
       corresponding_generic_drug_effective_date = None,
       as_of_date = Some ''01/03/2024'' \<rparr>"

text \<open>The record the loop pushes for an entry without a match: the description and the
  identifier, and no other property.\<close>

definition shortRecord :: "priceEntry \<Rightarrow> enrichedRecord" where
  "shortRecord med =
     \<lparr> ndc_description = ndc_description med,
       ndc = ndc med,
       nadac_per_unit = None,
       effective_date = None,
       pricing_unit = None,
       pharmacy_type_indicator = None,
       otc = None,
       explanation_code = None,
       classification_for_rate_setting = None,
       corresponding_generic_drug_nadac_per_unit = None,
       corresponding_generic_drug_effective_date = None,
       as_of_date = None,
       fdaMatches = None \<rparr>"

subsection \<open>The output files\<close>

text \<open>
  The file system is a map from paths to file contents; paths are relative to the project
  root. A file holds the value that \<open>JSON.stringify\<close> is applied to (the model does not
  go down to the characters of the JSON text). \<open>fs.writeFileSync\<close> either stores the file
  or throws: the predicate \<open>writable\<close> says for which paths the operating system accepts
  the write. A function that may throw returns \<^term>\<open>Inl fs\<close>, the file system at the
  moment of the exception, or \<^term>\<open>Inr r\<close>, its result. Removing and creating the
  chunks directory are taken to succeed; the counters that \<open>enrichMedicaidWithOpenFda\<close>
  keeps for its log lines are left out.
\<close>

record chunkMeta =
  filename :: string
  count :: nat

record manifest =
  total :: nat
  m_chunkSize :: nat
  numberOfChunks :: nat
  chunks :: "chunkMeta list"

datatype fileContent =
    EnrichedFile "enrichedRecord list"
  | SearchIndexFile "string list"
  | ManifestFile manifest
  | ClassMapFile "(string \<times> string) list"

type_synonym fileSystem = "string \<Rightarrow> fileContent option"

definition pathJoin :: "string \<Rightarrow> string \<Rightarrow> string" where
  "pathJoin dir name = dir @ ''/'' @ name"

definition PUBLIC_DATA_DIR :: string where
  "PUBLIC_DATA_DIR = ''public/data''"

definition OUT_ENRICHED_PUBLIC :: string where
  "OUT_ENRICHED_PUBLIC = pathJoin PUBLIC_DATA_DIR ''enriched_medicaid_openfda.json''"

definition OUT_SEARCH_INDEX_PUBLIC :: string where
  "OUT_SEARCH_INDEX_PUBLIC = pathJoin PUBLIC_DATA_DIR ''search-index-enriched.json''"

definition ENRICHED_CHUNKS_DIR :: string where
  "ENRICHED_CHUNKS_DIR = pathJoin PUBLIC_DATA_DIR ''enriched-chunks''"

definition DESC_CLASS_MAP_PATH :: string where
  "DESC_CLASS_MAP_PATH = pathJoin PUBLIC_DATA_DIR ''description-classification.json''"

definition MANIFEST_PATH :: string where
  "MANIFEST_PATH = pathJoin ENRICHED_CHUNKS_DIR ''chunks-manifest.json''"

definition writeFileSync ::
  "(string \<Rightarrow> bool) \<Rightarrow> fileSystem \<Rightarrow> string \<Rightarrow> fileContent \<Rightarrow> fileSystem option" where
  "writeFileSync writable fs path content =
     (if writable path then Some (fs(path \<mapsto> content)) else None)"

definition rmSync :: "fileSystem \<Rightarrow> string \<Rightarrow> fileSystem" where
  \<comment> \<open>\<open>fs.rmSync(dir, { recursive: true, force: true })\<close>: every file below \<open>dir\<close> goes\<close>
  "rmSync fs dir = (\<lambda>p. if take (length dir + 1) p = dir @ ''/'' then None else fs p)"

text \<open>The decimal digits of a number, as a template literal prints it.\<close>

definition digitChar :: "nat \<Rightarrow> char" where
  "digitChar d = ''0123456789'' ! d"

function showNat :: "nat \<Rightarrow> string" where
  "showNat n = (if n < 10 then [digitChar n] else showNat (n div 10) @ [digitChar (n mod 10)])"
  by pat_completeness auto
termination
  by (relation "measure id") auto

declare showNat.simps [simp del]

definition chunkSize :: nat where
  "chunkSize = 4000"

definition chunkFileName :: "nat \<Rightarrow> string" where
  "chunkFileName k = ''enriched-chunk-'' @ showNat k @ ''.json''"

text \<open>The loop \<open>for (let i = 0; i < enriched.length; i += chunkSize)\<close> of \<open>main\<close>.\<close>

function chunkLoop ::
  "(string \<Rightarrow> bool) \<Rightarrow> enrichedRecord list \<Rightarrow> nat \<Rightarrow> chunkMeta list \<Rightarrow> fileSystem \<Rightarrow>
     fileSystem + (chunkMeta list \<times> fileSystem)" where
  "chunkLoop writable enriched i chunksMeta fs =
     (if i < length enriched then
        let slice = take chunkSize (drop i enriched);
            fname = chunkFileName (length chunksMeta + 1)
        in case writeFileSync writable fs (pathJoin ENRICHED_CHUNKS_DIR fname) (EnrichedFile slice) of
             None \<Rightarrow> Inl fs
           | Some fs' \<Rightarrow>
               chunkLoop writable enriched (i + chunkSize)
                 (chunksMeta @ [\<lparr> filename = fname, count = length slice \<rparr>]) fs'
      else Inr (chunksMeta, fs))"
  by pat_completeness auto
termination
  by (relation "measure (\<lambda>(writable, enriched, i, chunksMeta, fs). length enriched - i)")
     (auto simp: chunkSize_def)

declare chunkLoop.simps [simp del]

text \<open>The description-classification lookup: the first classification seen for a
  description stays. (A plain JavaScript object is used as the map; a description that
  is the name of a property every object inherits, such as \<open>constructor\<close>, would never
  be stored. Drug descriptions are not of that kind, and the model takes an ordinary map.)\<close>

definition classStep :: "(string \<times> string) list \<Rightarrow> enrichedRecord \<Rightarrow> (string \<times> string) list" where
  "classStep descClassMap r =
     (let d = ndc_description r;
          c = (case classification_for_rate_setting r of None \<Rightarrow> [] | Some c \<Rightarrow> c)
      in if d \<noteq> [] \<and> c \<noteq> [] \<and> map_of descClassMap d = None then mapSet descClassMap d c
         else descClassMap)"

definition buildDescClassMap :: "enrichedRecord list \<Rightarrow> (string \<times> string) list" where
  "buildDescClassMap enriched = foldl classStep [] enriched"

definition searchDescriptions :: "enrichedRecord list \<Rightarrow> string list" where
  \<comment> \<open>\<open>Array.from(new Set(enriched.map(r => r.ndc_description).filter(Boolean))).sort()\<close>\<close>
  "searchDescriptions enriched =
     sort (remdups (filter (\<lambda>d. d \<noteq> []) (map ndc_description enriched)))"

definition enrichMedicaidWithOpenFda ::
  "(string \<Rightarrow> bool) \<Rightarrow> fileSystem \<Rightarrow> priceEntry list \<Rightarrow> openIdx \<Rightarrow>
     fileSystem + (enrichedRecord list \<times> fileSystem)" where
  "enrichMedicaidWithOpenFda writable fs uniqueMed openIdx =
     (let enriched = enrich openIdx uniqueMed in
      case writeFileSync writable fs OUT_ENRICHED_PUBLIC (EnrichedFile enriched) of
        None \<Rightarrow> Inl fs
      | Some fs1 \<Rightarrow>
          (case writeFileSync writable fs1 OUT_SEARCH_INDEX_PUBLIC
                  (SearchIndexFile (searchDescriptions enriched)) of
             None \<Rightarrow> Inl fs1
           | Some fs2 \<Rightarrow> Inr (enriched, fs2)))"

definition writeChunks ::
  "(string \<Rightarrow> bool) \<Rightarrow> fileSystem \<Rightarrow> enrichedRecord list \<Rightarrow> fileSystem + fileSystem" where
  \<comment> \<open>the body of the \<open>try\<close> block of \<open>main\<close>\<close>
  "writeChunks writable fs enriched =
     (let fs0 = rmSync fs ENRICHED_CHUNKS_DIR in
      case chunkLoop writable enriched 0 [] fs0 of
        Inl fs' \<Rightarrow> Inl fs'
      | Inr (chunksMeta, fs1) \<Rightarrow>
          let manifest = \<lparr> total = length enriched,
                           m_chunkSize = chunkSize,
                           numberOfChunks = length chunksMeta,
                           chunks = chunksMeta \<rparr>
          in case writeFileSync writable fs1 MANIFEST_PATH (ManifestFile manifest) of
               None \<Rightarrow> Inl fs1
             | Some fs2 \<Rightarrow>
                 (case writeFileSync writable fs2 DESC_CLASS_MAP_PATH
                         (ClassMapFile (buildDescClassMap enriched)) of
                    None \<Rightarrow> Inl fs2
                  | Some fs3 \<Rightarrow> Inr fs3))"

text \<open>\<open>main\<close> on the items and the deduplicated price entries read from the two input
  files: the exit status of the process and the file system it leaves. An exception in
  \<open>enrichMedicaidWithOpenFda\<close> reaches \<open>main().catch\<close>, one in the \<open>try\<close> block its
  \<open>catch\<close>; both end in \<open>process.exit(1)\<close>.\<close>

definition main ::
  "(string \<Rightarrow> bool) \<Rightarrow> fileSystem \<Rightarrow> openFdaItem list \<Rightarrow> priceEntry list \<Rightarrow> nat \<times> fileSystem" where
  "main writable fs openArr medUnique =
     (let openIdx = buildOpenFdaIndexes openArr in
      case enrichMedicaidWithOpenFda writable fs medUnique openIdx of
        Inl fs' \<Rightarrow> (1, fs')
      | Inr (enriched, fs1) \<Rightarrow>
          (case writeChunks writable fs1 enriched of
             Inl fs' \<Rightarrow> (1, fs')
           | Inr fs2 \<Rightarrow> (0, fs2)))"

text \<open>The chunk a manifest entry names, read back from the file system.\<close>

definition readChunk :: "fileSystem \<Rightarrow> chunkMeta \<Rightarrow> enrichedRecord list option" where
  "readChunk fs ch =
     (case fs (pathJoin ENRICHED_CHUNKS_DIR (filename ch)) of
        Some (EnrichedFile rs) \<Rightarrow> Some rs
      | _ \<Rightarrow> None)"

text \<open>A run in which the write of the manifest fails and every other write succeeds.\<close>

definition allButManifestWritable :: "string \<Rightarrow> bool" where
  "allButManifestWritable path = (path \<noteq> MANIFEST_PATH)"

definition emptyFs :: fileSystem where
  "emptyFs = (\<lambda>p. None)"

definition allWritable :: "string \<Rightarrow> bool" where
  "allWritable path = True"

text \<open>The path of the \<open>k\<close>-th chunk file, and the slices the loop cuts when it stands at
  position \<open>i\<close>.\<close>

definition chunkPath :: "nat \<Rightarrow> string" where
  "chunkPath k = pathJoin ENRICHED_CHUNKS_DIR (chunkFileName k)"

function slicesFrom :: "nat \<Rightarrow> 'a list \<Rightarrow> 'a list list" where
  "slicesFrom i xs =
     (if i < length xs then take chunkSize (drop i xs) # slicesFrom (i + chunkSize) xs else [])"
  by pat_completeness auto
termination
  by (relation "measure (\<lambda>(i, xs). length xs - i)") (auto simp: chunkSize_def)

declare slicesFrom.simps [simp del]

text \<open>The manifest entries the chunk loop makes for a collection: the slices in order,
  numbered from 1.\<close>

definition chunkMetas :: "enrichedRecord list \<Rightarrow> chunkMeta list" where
  "chunkMetas enriched =
     map (\<lambda>(k, s). \<lparr> filename = chunkFileName k, count = length s \<rparr>)
       (enumerate (Suc 0) (slicesFrom 0 enriched))"

section \<open>Properties\<close>

subsection \<open>The index builder\<close>

lemma addToMapArray_Nil: "addToMapArray [] k r = [(k, [r])]"
  by (simp add: addToMapArray_def)

lemma addToMapArray_Cons:
  "addToMapArray ((k', arr) # m) k r =
     (if k' = k then (k', arr @ [r]) # m else (k', arr) # addToMapArray m k r)"
  by (simp add: addToMapArray_def split: option.splits)

lemma mset_bucketRecs_add:
  "mset (bucketRecs (addToMapArray b k r)) = add_mset (k, r) (mset (bucketRecs b))"
proof (induction b)
  case Nil
  show ?case by (simp add: addToMapArray_Nil bucketRecs_def)
next
  case (Cons p b)
  obtain k' arr where p: "p = (k', arr)" by (cases p)
  from Cons show ?case
    by (simp add: p addToMapArray_Cons bucketRecs_def)
qed

lemma indexInsert_Nil: "indexInsert [] cur r = [(length cur, [(cur, [r])])]"
  by (simp add: indexInsert_def addToMapArray_Nil)

lemma indexInsert_Cons:
  "indexInsert ((L, b) # m) cur r =
     (if L = length cur then (L, addToMapArray b cur r) # m else (L, b) # indexInsert m cur r)"
  by (simp add: indexInsert_def Let_def split: option.splits)

lemma mset_indexRecs_insert:
  "mset (indexRecs (indexInsert byLen cur r)) = add_mset (length cur, cur, r) (mset (indexRecs byLen))"
proof (induction byLen)
  case Nil
  show ?case by (simp add: indexInsert_Nil indexRecs_def bucketRecs_def)
next
  case (Cons p byLen)
  obtain L b where p: "p = (L, b)" by (cases p)
  have "mset (map (\<lambda>(k, r). (L, k, r)) (bucketRecs (addToMapArray b cur r)))
      = add_mset (L, cur, r) (mset (map (\<lambda>(k, r). (L, k, r)) (bucketRecs b)))"
    using arg_cong [OF mset_bucketRecs_add [of b cur r], of "image_mset (Pair L)"]
    by simp
  with Cons show ?case
    by (auto simp: p indexInsert_Cons indexRecs_def)
qed

lemma strips_length_le: "v \<in> set (strips cs) \<Longrightarrow> length v \<le> length cs"
  by (induction cs) (auto split: if_splits)

lemma strips_distinct: "distinct (strips cs)"
  by (induction cs) (auto dest: strips_length_le)

lemma stripLoop_spec:
  "fst (stripLoop i vt cur (seen, byLen)) = seen \<union> set (strips cur) \<and>
   mset (indexRecs (snd (stripLoop i vt cur (seen, byLen)))) =
     mset (indexRecs byLen) + mset (map (stored i vt) (filter (\<lambda>v. v \<notin> seen) (strips cur)))"
proof (induction cur arbitrary: seen byLen)
  case Nil
  show ?case
    by (auto simp: visitVariant_def mset_indexRecs_insert stored_def)
next
  case (Cons c cs)
  have notin: "\<And>v. v \<in> set (strips cs) \<Longrightarrow> v \<noteq> c # cs"
    using strips_length_le by fastforce
  have filt: "\<And>S. filter_mset (\<lambda>v. v \<noteq> c # cs \<and> v \<notin> S) (mset (strips cs))
      = filter_mset (\<lambda>v. v \<notin> S) (mset (strips cs))"
    by (rule filter_mset_cong) (auto dest: notin)
  show ?case
  proof (cases "c # cs \<in> seen")
    case True
    then show ?thesis
      using Cons [of seen byLen]
      by (auto simp: visitVariant_def Let_def)
  next
    case False
    then show ?thesis
      using Cons [of "insert (c # cs) seen" "indexInsert byLen (c # cs) \<lparr> idx = i, variant = c # cs, vtype = vt \<rparr>"]
      by (auto simp: visitVariant_def Let_def filt mset_indexRecs_insert stored_def)
  qed
qed

lemma indexVariant_spec:
  "fst (indexVariant i vt v (seen, byLen)) = seen \<union> set (variantsOf v) \<and>
   mset (indexRecs (snd (indexVariant i vt v (seen, byLen)))) =
     mset (indexRecs byLen) + mset (map (stored i vt) (filter (\<lambda>v. v \<notin> seen) (variantsOf v)))"
  using stripLoop_spec [of i vt v seen byLen]
  by (simp add: indexVariant_def variantsOf_def)

lemma mset_indexRecs_indexEntry:
  "mset (indexRecs (indexEntry i e byLen)) = mset (indexRecs byLen) + mset (entryRecs i e)"
proof -
  obtain seen1 byLen1 where s1: "indexVariant i Digits (trim (ndcDigits e)) ({}, byLen) = (seen1, byLen1)"
    by (cases "indexVariant i Digits (trim (ndcDigits e)) ({}, byLen)")
  from indexVariant_spec [of i Digits "trim (ndcDigits e)" "{}" byLen] s1
  have a: "seen1 = set (variantsOf (trim (ndcDigits e)))"
    and b: "mset (indexRecs byLen1) = mset (indexRecs byLen) + mset (map (stored i Digits) (variantsOf (trim (ndcDigits e))))"
    by simp_all
  from indexVariant_spec [of i ZeroFill "trim (ndcZeroFill e)" seen1 byLen1]
  show ?thesis
    by (simp add: indexEntry_def s1 a b entryRecs_def Let_def)
qed

lemma mset_indexRecs_indexEntries:
  "mset (indexRecs (indexEntries i es byLen)) =
     mset (indexRecs byLen) + mset (concat (map (\<lambda>(j, e). entryRecs j e) (enumerate i es)))"
  by (induction es arbitrary: i byLen) (simp_all add: mset_indexRecs_indexEntry)

lemma dropWhile_none: "(\<And>c. c \<in> set xs \<Longrightarrow> \<not> P c) \<Longrightarrow> dropWhile P xs = xs"
  by (cases xs) auto

lemma isDigit_not_isSpace: "isDigit c \<Longrightarrow> \<not> isSpace c"
  by (auto simp: isDigit_def isSpace_def)

lemma trim_digits: "(\<And>c. c \<in> set s \<Longrightarrow> isDigit c) \<Longrightarrow> trim s = s"
proof -
  assume d: "\<And>c. c \<in> set s \<Longrightarrow> isDigit c"
  have a: "dropWhile isSpace s = s"
    by (rule dropWhile_none) (simp add: isDigit_not_isSpace d)
  have b: "dropWhile isSpace (rev s) = rev s"
    by (rule dropWhile_none) (simp add: isDigit_not_isSpace d)
  show ?thesis by (simp add: trim_def a b)
qed

lemma trim_ndcDigits: "trim (ndcDigits (toEntry item)) = ndcDigits (toEntry item)"
  by (rule trim_digits) (simp add: toEntry_def Let_def openFdaDigitsKeepZeros_def split: if_splits)

lemma trim_ndcZeroFill: "trim (ndcZeroFill (toEntry item)) = ndcZeroFill (toEntry item)"
  by (rule trim_digits) (simp add: toEntry_def Let_def openFdaHyphenZeroFill_def split: if_splits)

lemma indexRecs_Nil: "indexRecs [] = []"
  by (simp add: indexRecs_def)

lemma mset_indexRecs_build:
  "mset (indexRecs (ndcByLength (buildOpenFdaIndexes items))) =
     mset (concat (map (\<lambda>(j, e). entryRecs j e) (enumerate 0 (map toEntry items))))"
  by (simp add: buildOpenFdaIndexes_def Let_def mset_indexRecs_indexEntries indexRecs_Nil)

lemma in_entryRecs_iff:
  "(L, k, r) \<in> set (entryRecs i e) \<longleftrightarrow>
     idx r = i \<and> L = length k \<and> k = variant r \<and>
     (vtype r = Digits \<and> variant r \<in> set (variantsOf (trim (ndcDigits e))) \<or>
      vtype r = ZeroFill \<and> variant r \<in> set (variantsOf (trim (ndcZeroFill e))) \<and>
        variant r \<notin> set (variantsOf (trim (ndcDigits e))))"
  by (cases r) (auto simp: entryRecs_def Let_def stored_def)

lemma set_specRecs:
  "set (concat (map (\<lambda>(j, e). entryRecs j e) (enumerate i es))) =
     (\<Union>j\<in>{..<length es}. set (entryRecs (i + j) (es ! j)))"
proof (induction es arbitrary: i)
  case Nil
  show ?case by simp
next
  case (Cons e es)
  have "(\<Union>j\<in>{..<length (e # es)}. set (entryRecs (i + j) ((e # es) ! j))) =
        set (entryRecs i e) \<union> (\<Union>j\<in>{..<length es}. set (entryRecs (Suc i + j) (es ! j)))"
    by (simp add: lessThan_Suc_eq_insert_0 image_image)
  with Cons [of "Suc i"] show ?case by simp
qed


lemma in_indexRecs_build_iff:
  "(L, k, r) \<in> set (indexRecs (ndcByLength (buildOpenFdaIndexes items))) \<longleftrightarrow>
     idx r < length items \<and> L = length k \<and> k = variant r \<and>
     (vtype r = Digits \<and> variant r \<in> set (variantsOf (ndcDigits (toEntry (items ! idx r)))) \<or>
      vtype r = ZeroFill \<and> variant r \<in> set (variantsOf (ndcZeroFill (toEntry (items ! idx r)))) \<and>
        variant r \<notin> set (variantsOf (ndcDigits (toEntry (items ! idx r)))))"
proof -
  have "set (indexRecs (ndcByLength (buildOpenFdaIndexes items))) =
        set (concat (map (\<lambda>(j, e). entryRecs j e) (enumerate 0 (map toEntry items))))"
    using mset_indexRecs_build [of items] by (rule mset_eq_setD)
  also have "\<dots> = (\<Union>j\<in>{..<length items}. set (entryRecs j (toEntry (items ! j))))"
    unfolding set_specRecs by simp
  finally show ?thesis
    by (auto simp: in_entryRecs_iff trim_ndcDigits trim_ndcZeroFill)
qed

lemma buildOpenFdaIndexes_idx_in_range:
  "(L, k, r) \<in> set (indexRecs (ndcByLength (buildOpenFdaIndexes items))) \<Longrightarrow>
     idx r < length (entries (buildOpenFdaIndexes items))"
  by (simp add: in_indexRecs_build_iff) (simp add: buildOpenFdaIndexes_def Let_def)

lemma indexRecs_memI:
  "(L, mapL) \<in> set byLen \<Longrightarrow> (key, arr) \<in> set mapL \<Longrightarrow> r \<in> set arr \<Longrightarrow>
     (L, key, r) \<in> set (indexRecs byLen)"
  by (force simp: indexRecs_def bucketRecs_def)

lemma distinct_entryRecs:
  "distinct (map (\<lambda>(L, k, r). (idx r, variant r)) (entryRecs i e))"
proof -
  have inj: "inj_on (Pair i) A" for A :: "string set"
    by (simp add: inj_on_def)
  have d: "distinct (variantsOf v)" for v
    by (simp add: variantsOf_def strips_distinct)
  have eq: "map (\<lambda>(L, k, r). (idx r, variant r)) (entryRecs i e) =
        map (Pair i) (variantsOf (trim (ndcDigits e)) @
          filter (\<lambda>v. v \<notin> set (variantsOf (trim (ndcDigits e)))) (variantsOf (trim (ndcZeroFill e))))"
    by (simp add: entryRecs_def Let_def stored_def comp_def)
  have disj: "Pair i ` set (variantsOf (trim (ndcDigits e))) \<inter>
      Pair i ` {x \<in> set (variantsOf (trim (ndcZeroFill e))). x \<notin> set (variantsOf (trim (ndcDigits e)))} = {}"
    by auto
  show ?thesis
    unfolding eq by (simp add: distinct_map inj d disj)
qed

lemma distinct_specRecs:
  "distinct (map (\<lambda>(L, k, r). (idx r, variant r))
      (concat (map (\<lambda>(j, e). entryRecs j e) (enumerate i es))))"
proof (induction es arbitrary: i)
  case Nil
  show ?case by simp
next
  case (Cons e es)
  let ?g = "\<lambda>(L, k, r). (idx r, variant r)"
  let ?rest = "concat (map (\<lambda>(j, e). entryRecs j e) (enumerate (Suc i) es))"
  have later: "idx r \<noteq> i" if "(L, k, r) \<in> set ?rest" for L k r
    using that unfolding set_specRecs by (auto simp: in_entryRecs_iff)
  have here: "idx r = i" if "(L, k, r) \<in> set (entryRecs i e)" for L k r
    using that by (simp add: in_entryRecs_iff)
  have disj: "?g ` set (entryRecs i e) \<inter> ?g ` set ?rest = {}"
  proof (rule ccontr)
    assume "?g ` set (entryRecs i e) \<inter> ?g ` set ?rest \<noteq> {}"
    then obtain p where p1: "p \<in> ?g ` set (entryRecs i e)" and p2: "p \<in> ?g ` set ?rest"
      by blast
    from p1 obtain t where t: "t \<in> set (entryRecs i e)" "p = ?g t" by blast
    obtain L k r where tt: "t = (L, k, r)" by (cases t)
    from t tt have a: "fst p = i" using here [of L k r] by simp
    from p2 obtain t' where t': "t' \<in> set ?rest" "p = ?g t'" by blast
    obtain L' k' r' where tt': "t' = (L', k', r')" by (cases t')
    from t' tt' have "fst p \<noteq> i" using later [of L' k' r'] by simp
    with a show False by simp
  qed
  have "concat (map (\<lambda>(j, e). entryRecs j e) (enumerate i (e # es))) = entryRecs i e @ ?rest"
    by simp
  then show ?case
    using Cons [of "Suc i"] distinct_entryRecs [of i e] disj
    by (simp only: map_append distinct_append set_map)
qed

lemma distinct_indexRecs_build:
  "distinct (map (\<lambda>(L, k, r). (idx r, variant r)) (indexRecs (ndcByLength (buildOpenFdaIndexes items))))"
proof -
  have "mset (map (\<lambda>(L, k, r). (idx r, variant r)) (indexRecs (ndcByLength (buildOpenFdaIndexes items))))
      = mset (map (\<lambda>(L, k, r). (idx r, variant r))
          (concat (map (\<lambda>(j, e). entryRecs j e) (enumerate 0 (map toEntry items)))))"
    using arg_cong [OF mset_indexRecs_build [of items], of "image_mset (\<lambda>(L, k, r). (idx r, variant r))"]
    by simp
  then show ?thesis
    using distinct_specRecs [of 0 "map toEntry items"] mset_eq_imp_distinct_iff by blast
qed

lemma strips_floor: "v \<in> set (strips s) \<Longrightarrow> v = s \<or> 5 \<le> length v"
  by (induction s) (auto split: if_splits)

lemma strips_self: "s \<in> set (strips s)"
  by (cases s) simp_all

lemma strips_suffix:
  "v \<in> set (strips s) \<Longrightarrow> \<exists>n. v = drop n s \<and> set (take n s) \<subseteq> {CHR ''0''}"
proof (induction s)
  case Nil
  then show ?case by simp
next
  case (Cons c cs)
  show ?case
  proof (cases "v = c # cs")
    case True
    then have "v = drop 0 (c # cs) \<and> set (take 0 (c # cs)) \<subseteq> {CHR ''0''}" by simp
    then show ?thesis by blast
  next
    case False
    with Cons.prems have c0: "c = CHR ''0''" and v: "v \<in> set (strips cs)"
      by (auto split: if_splits)
    from Cons.IH [OF v] obtain n where "v = drop n cs" "set (take n cs) \<subseteq> {CHR ''0''}" by blast
    then have "v = drop (Suc n) (c # cs) \<and> set (take (Suc n) (c # cs)) \<subseteq> {CHR ''0''}"
      using c0 by simp
    then show ?thesis by blast
  qed
qed

lemma variantsOf_floor: "v \<in> set (variantsOf s) \<Longrightarrow> v = s \<or> 5 \<le> length v"
  by (auto simp: variantsOf_def dest: strips_floor split: if_splits)

lemma variantsOf_suffix:
  "v \<in> set (variantsOf s) \<Longrightarrow> \<exists>n. v = drop n s \<and> set (take n s) \<subseteq> {CHR ''0''}"
  by (auto simp: variantsOf_def dest: strips_suffix split: if_splits)

lemma ndcByLength_sharedFormsItem:
  "ndcByLength (buildOpenFdaIndexes [sharedFormsItem]) =
     [(8, [(''00001234'', [\<lparr>idx = 0, variant = ''00001234'', vtype = Digits\<rparr>])]),
      (7, [(''0001234'', [\<lparr>idx = 0, variant = ''0001234'', vtype = Digits\<rparr>])]),
      (6, [(''001234'', [\<lparr>idx = 0, variant = ''001234'', vtype = Digits\<rparr>])]),
      (5, [(''01234'', [\<lparr>idx = 0, variant = ''01234'', vtype = Digits\<rparr>])]),
      (9, [(''000001234'', [\<lparr>idx = 0, variant = ''000001234'', vtype = ZeroFill\<rparr>])])]"
  by code_simp

lemma forms_sharedFormsItem:
  "ndcDigits (toEntry sharedFormsItem) = ''00001234'' \<and>
   ndcZeroFill (toEntry sharedFormsItem) = ''000001234''"
  by code_simp

lemma ndcByLength_scenarioItem:
  "ndcByLength (buildOpenFdaIndexes [scenarioItem]) =
     [(11, [(''00002323130'', [\<lparr>idx = 0, variant = ''00002323130'', vtype = Digits\<rparr>]),
            (''00203231030'', [\<lparr>idx = 0, variant = ''00203231030'', vtype = ZeroFill\<rparr>])]),
      (10, [(''0002323130'', [\<lparr>idx = 0, variant = ''0002323130'', vtype = Digits\<rparr>]),
            (''0203231030'', [\<lparr>idx = 0, variant = ''0203231030'', vtype = ZeroFill\<rparr>])]),
      (9, [(''002323130'', [\<lparr>idx = 0, variant = ''002323130'', vtype = Digits\<rparr>]),
           (''203231030'', [\<lparr>idx = 0, variant = ''203231030'', vtype = ZeroFill\<rparr>])]),
      (8, [(''02323130'', [\<lparr>idx = 0, variant = ''02323130'', vtype = Digits\<rparr>])]),
      (7, [(''2323130'', [\<lparr>idx = 0, variant = ''2323130'', vtype = Digits\<rparr>])]),
      (13, [(''0000203231030'', [\<lparr>idx = 0, variant = ''0000203231030'', vtype = ZeroFill\<rparr>])]),
      (12, [(''000203231030'', [\<lparr>idx = 0, variant = ''000203231030'', vtype = ZeroFill\<rparr>])])]"
  by code_simp

text \<open>
  C10. Every variant string stored in the bucket keyed by the length \<open>L\<close> has length \<open>L\<close>:
  for each bucket of the index that \<open>buildOpenFdaIndexes\<close> returns, the strings the bucket
  is keyed by have length \<open>L\<close>, and each record in the array of a string carries that very
  string as its variant. So a lookup of a string \<open>sub\<close> in the bucket of \<open>L\<close>, as the forward
  phase makes it, finds only records whose variant is \<open>sub\<close> and has length \<open>L\<close>.
\<close>

theorem bucket_holds_variants_of_its_length:
  "(\<forall>L mapL key arr r.
      (L, mapL) \<in> set (ndcByLength (buildOpenFdaIndexes items)) \<longrightarrow>
      (key, arr) \<in> set mapL \<longrightarrow> r \<in> set arr \<longrightarrow>
        length key = L \<and> variant r = key \<and> length (variant r) = L) \<and>
   (\<forall>L mapL sub arr r.
      map_of (ndcByLength (buildOpenFdaIndexes items)) L = Some mapL \<longrightarrow>
      map_of mapL sub = Some arr \<longrightarrow> r \<in> set arr \<longrightarrow>
        length sub = L \<and> variant r = sub \<and> length (variant r) = L)"
proof -
  have a: "length key = L \<and> variant r = key \<and> length (variant r) = L"
    if "(L, mapL) \<in> set (ndcByLength (buildOpenFdaIndexes items))"
      and "(key, arr) \<in> set mapL" and "r \<in> set arr" for L mapL key arr r
  proof -
    from that have "(L, key, r) \<in> set (indexRecs (ndcByLength (buildOpenFdaIndexes items)))"
      by (rule indexRecs_memI)
    then show ?thesis
      by (simp add: in_indexRecs_build_iff)
  qed
  have b: "length sub = L \<and> variant r = sub \<and> length (variant r) = L"
    if "map_of (ndcByLength (buildOpenFdaIndexes items)) L = Some mapL"
      and "map_of mapL sub = Some arr" and "r \<in> set arr" for L mapL sub arr r
    using a [OF map_of_SomeD [OF that(1)] map_of_SomeD [OF that(2)] that(3)] .
  from a b show ?thesis by blast
qed

theorem bucket_holds_variants_of_its_length_witness:
  "(7, [(''0001234'', [\<lparr>idx = 0, variant = ''0001234'', vtype = Digits\<rparr>])])
     \<in> set (ndcByLength (buildOpenFdaIndexes [sharedFormsItem])) \<and>
   length (variant \<lparr>idx = 0, variant = ''0001234'', vtype = Digits\<rparr>) = 7"
proof -
  have mem: "(7, [(''0001234'', [\<lparr>idx = 0, variant = ''0001234'', vtype = Digits\<rparr>])])
     \<in> set (ndcByLength (buildOpenFdaIndexes [sharedFormsItem]))"
    by (simp add: ndcByLength_sharedFormsItem)
  from bucket_holds_variants_of_its_length [of "[sharedFormsItem]"] mem
  have "length (variant \<lparr>idx = 0, variant = ''0001234'', vtype = Digits\<rparr>) = 7"
    by (metis list.set_intros(1))
  with mem show ?thesis by simp
qed

lemma forms_scenarioItem:
  "ndcDigits (toEntry scenarioItem) = ''00002323130'' \<and>
   ndcZeroFill (toEntry scenarioItem) = ''0000203231030''"
  by code_simp

text \<open>
  C7, as the code has it. The set \<open>seen\<close> of an entry holds variant strings, not pairs
  of a string and a hypothesis, and the entry's two forms share it. So every variant string
  of an entry is indexed exactly once: a record is in the index precisely when it names an
  entry of the list, stands in the bucket of its length under its own string, and is either
  a digits-only variant filed as \<open>digits\<close>, or a zero-fill variant that is not a
  digits-only variant as well, filed as \<open>zeroFill\<close>; and no two records of the index agree
  on entry and string. A string that both forms yield is indexed once, as \<open>digits\<close>.
\<close>

theorem variant_indexed_once_per_entry:
  "distinct (map (\<lambda>(L, k, r). (idx r, variant r))
      (indexRecs (ndcByLength (buildOpenFdaIndexes items)))) \<and>
   (\<forall>L k r.
      (L, k, r) \<in> set (indexRecs (ndcByLength (buildOpenFdaIndexes items))) \<longleftrightarrow>
        idx r < length items \<and> L = length k \<and> k = variant r \<and>
        (vtype r = Digits \<and>
           variant r \<in> set (variantsOf (ndcDigits (toEntry (items ! idx r)))) \<or>
         vtype r = ZeroFill \<and>
           variant r \<in> set (variantsOf (ndcZeroFill (toEntry (items ! idx r)))) \<and>
           variant r \<notin> set (variantsOf (ndcDigits (toEntry (items ! idx r))))))"
  using distinct_indexRecs_build [of items] in_indexRecs_build_iff [of _ _ _ items]
  by blast

theorem variant_indexed_once_per_entry_witness:
  "(7, ''0001234'', \<lparr>idx = 0, variant = ''0001234'', vtype = Digits\<rparr>)
      \<in> set (indexRecs (ndcByLength (buildOpenFdaIndexes [sharedFormsItem]))) \<and>
   (7, ''0001234'', \<lparr>idx = 0, variant = ''0001234'', vtype = ZeroFill\<rparr>)
      \<notin> set (indexRecs (ndcByLength (buildOpenFdaIndexes [sharedFormsItem])))"
proof -
  have v: "''0001234'' \<in> set (variantsOf (ndcDigits (toEntry sharedFormsItem)))"
    by (simp add: forms_sharedFormsItem variantsOf_def)
  from variant_indexed_once_per_entry [of "[sharedFormsItem]"]
  have iff: "(L, k, r) \<in> set (indexRecs (ndcByLength (buildOpenFdaIndexes [sharedFormsItem]))) \<longleftrightarrow>
        idx r < length [sharedFormsItem] \<and> L = length k \<and> k = variant r \<and>
        (vtype r = Digits \<and>
           variant r \<in> set (variantsOf (ndcDigits (toEntry ([sharedFormsItem] ! idx r)))) \<or>
         vtype r = ZeroFill \<and>
           variant r \<in> set (variantsOf (ndcZeroFill (toEntry ([sharedFormsItem] ! idx r)))) \<and>
           variant r \<notin> set (variantsOf (ndcDigits (toEntry ([sharedFormsItem] ! idx r)))))" for L k r
    by blast
  show ?thesis
    using v by (simp add: iff)
qed

theorem shared_variant_counterexample:
  "''0001234'' \<in> set (variantsOf (ndcDigits (toEntry sharedFormsItem))) \<and>
   ''0001234'' \<in> set (variantsOf (ndcZeroFill (toEntry sharedFormsItem))) \<and>
   indexRecs (ndcByLength (buildOpenFdaIndexes [sharedFormsItem])) =
     [(8, ''00001234'', \<lparr>idx = 0, variant = ''00001234'', vtype = Digits\<rparr>),
      (7, ''0001234'', \<lparr>idx = 0, variant = ''0001234'', vtype = Digits\<rparr>),
      (6, ''001234'', \<lparr>idx = 0, variant = ''001234'', vtype = Digits\<rparr>),
      (5, ''01234'', \<lparr>idx = 0, variant = ''01234'', vtype = Digits\<rparr>),
      (9, ''000001234'', \<lparr>idx = 0, variant = ''000001234'', vtype = ZeroFill\<rparr>)] \<and>
   (7, ''0001234'', \<lparr>idx = 0, variant = ''0001234'', vtype = ZeroFill\<rparr>)
      \<notin> set (indexRecs (ndcByLength (buildOpenFdaIndexes [sharedFormsItem])))"
  by (simp add: forms_sharedFormsItem variantsOf_def ndcByLength_sharedFormsItem
      indexRecs_def bucketRecs_def)

text \<open>
  C8, with the zero-fill form the code computes. For the product code \<open>00002-3231-30\<close> the
  digits-only form is \<open>00002323130\<close> and the zero-fill form is \<open>0000203231030\<close> (each of the
  two hyphens becomes one \<open>0\<close>). The index of this item holds, under the digits-only
  hypothesis, the form and every value on the way down to \<open>2323130\<close>. For every input,
  an indexed variant is what is left of a form of its entry after dropping leading zeros
  only, and it is the whole form or has at least five characters.
\<close>

theorem scenario_forms_and_floor:
  "openFdaDigitsKeepZeros ''00002-3231-30'' = ''00002323130'' \<and>
   openFdaHyphenZeroFill ''00002-3231-30'' = ''0000203231030'' \<and>
   map (\<lambda>(L, k, r). variant r)
     (filter (\<lambda>(L, k, r). vtype r = Digits)
        (indexRecs (ndcByLength (buildOpenFdaIndexes [scenarioItem])))) =
     [''00002323130'', ''0002323130'', ''002323130'', ''02323130'', ''2323130''] \<and>
   (\<forall>items L k r.
      (L, k, r) \<in> set (indexRecs (ndcByLength (buildOpenFdaIndexes items))) \<longrightarrow>
        (\<exists>form n.
           (form = ndcDigits (toEntry (items ! idx r)) \<or>
            form = ndcZeroFill (toEntry (items ! idx r))) \<and>
           variant r = drop n form \<and> set (take n form) \<subseteq> {CHR ''0''} \<and>
           (variant r = form \<or> 5 \<le> length (variant r))))"
proof -
  have a: "openFdaDigitsKeepZeros ''00002-3231-30'' = ''00002323130''"
    by code_simp
  have b: "openFdaHyphenZeroFill ''00002-3231-30'' = ''0000203231030''"
    by code_simp
  have c: "map (\<lambda>(L, k, r). variant r)
     (filter (\<lambda>(L, k, r). vtype r = Digits)
        (indexRecs (ndcByLength (buildOpenFdaIndexes [scenarioItem])))) =
     [''00002323130'', ''0002323130'', ''002323130'', ''02323130'', ''2323130'']"
    by (simp add: ndcByLength_scenarioItem indexRecs_def bucketRecs_def)
  have d: "\<exists>form n.
           (form = ndcDigits (toEntry (items ! idx r)) \<or>
            form = ndcZeroFill (toEntry (items ! idx r))) \<and>
           variant r = drop n form \<and> set (take n form) \<subseteq> {CHR ''0''} \<and>
           (variant r = form \<or> 5 \<le> length (variant r))"
    if "(L, k, r) \<in> set (indexRecs (ndcByLength (buildOpenFdaIndexes items)))" for items L k r
  proof -
    from that obtain form where f: "form = ndcDigits (toEntry (items ! idx r)) \<or>
            form = ndcZeroFill (toEntry (items ! idx r))" and v: "variant r \<in> set (variantsOf form)"
      unfolding in_indexRecs_build_iff by blast
    from variantsOf_suffix [OF v] obtain n where
      "variant r = drop n form" "set (take n form) \<subseteq> {CHR ''0''}" by blast
    with f variantsOf_floor [OF v] show ?thesis by blast
  qed
  from a b c d show ?thesis by blast
qed

theorem scenario_forms_and_floor_witness:
  "(7, ''2323130'', \<lparr>idx = 0, variant = ''2323130'', vtype = Digits\<rparr>)
      \<in> set (indexRecs (ndcByLength (buildOpenFdaIndexes [scenarioItem]))) \<and>
   (\<exists>form n.
      (form = ndcDigits (toEntry ([scenarioItem] ! 0)) \<or>
       form = ndcZeroFill (toEntry ([scenarioItem] ! 0))) \<and>
      ''2323130'' = drop n form \<and> set (take n form) \<subseteq> {CHR ''0''} \<and>
      (''2323130'' = form \<or> 5 \<le> length ''2323130''))"
proof -
  have mem: "(7, ''2323130'', \<lparr>idx = 0, variant = ''2323130'', vtype = Digits\<rparr>)
      \<in> set (indexRecs (ndcByLength (buildOpenFdaIndexes [scenarioItem])))"
    by (simp add: ndcByLength_scenarioItem indexRecs_def bucketRecs_def)
  from scenario_forms_and_floor have "\<forall>items L k r.
      (L, k, r) \<in> set (indexRecs (ndcByLength (buildOpenFdaIndexes items))) \<longrightarrow>
        (\<exists>form n.
           (form = ndcDigits (toEntry (items ! idx r)) \<or>
            form = ndcZeroFill (toEntry (items ! idx r))) \<and>
           variant r = drop n form \<and> set (take n form) \<subseteq> {CHR ''0''} \<and>
           (variant r = form \<or> 5 \<le> length (variant r)))"
    by (elim conjE)
  from this [rule_format, OF mem] mem show ?thesis
    by simp
qed

theorem zero_fill_form_counterexample:
  "openFdaHyphenZeroFill ''00002-3231-30'' \<noteq> ''00002032313030''"
  by code_simp

subsection \<open>The linkage resolver\<close>

text \<open>A property of the state (the matches and the signatures seen) that every push of
  a record keeps holds after each loop of the resolver.\<close>

lemma foldl_invariant:
  "P st \<Longrightarrow> (\<And>st x. x \<in> set xs \<Longrightarrow> P st \<Longrightarrow> P (f st x)) \<Longrightarrow> P (foldl f st xs)"
  by (induction xs arbitrary: st) simp_all

lemma pushRecs_invariant:
  assumes "P st"
    and "\<And>st r. r \<in> set arr \<Longrightarrow> P st \<Longrightarrow> P (pushRec es mode st r)"
  shows "P (pushRecs es mode arr st)"
  unfolding pushRecs_def using assms by (rule foldl_invariant)

lemma forwardBucket_invariant:
  assumes "P st"
    and "\<And>st i arr r. i \<le> length medDigits - L \<Longrightarrow>
           map_of mapL (take L (drop i medDigits)) = Some arr \<Longrightarrow> r \<in> set arr \<Longrightarrow>
           P st \<Longrightarrow> P (pushRec es Forward st r)"
  shows "P (forwardBucket es medDigits L mapL st)"
  unfolding forwardBucket_def
proof (rule foldl_invariant [where P = P])
  show "P st" by (rule assms(1))
next
  fix st' :: collectState and i
  assume i: "i \<in> set [0..<Suc (length medDigits - L)]" and inv: "P st'"
  show "P (case map_of mapL (take L (drop i medDigits)) of
             None \<Rightarrow> st' | Some arr \<Rightarrow> pushRecs es Forward arr st')"
  proof (cases "map_of mapL (take L (drop i medDigits))")
    case None
    with inv show ?thesis by simp
  next
    case (Some arr)
    from i have ile: "i \<le> length medDigits - L" by auto
    have "P (pushRecs es Forward arr st')"
      by (rule pushRecs_invariant [where P = P, OF inv]) (rule assms(2) [OF ile Some])
    with Some show ?thesis by simp
  qed
qed

lemma forwardPhase_invariant:
  assumes "P st"
    and "\<And>st L mapL i arr r. L \<in> set forward \<Longrightarrow> map_of (ndcByLength openIdx) L = Some mapL \<Longrightarrow>
           i \<le> length medDigits - L \<Longrightarrow>
           map_of mapL (take L (drop i medDigits)) = Some arr \<Longrightarrow> r \<in> set arr \<Longrightarrow>
           P st \<Longrightarrow> P (pushRec (entries openIdx) Forward st r)"
  shows "P (forwardPhase openIdx medDigits forward st)"
  unfolding forwardPhase_def
proof (rule foldl_invariant [where P = P])
  show "P st" by (rule assms(1))
next
  fix st' :: collectState and L
  assume L: "L \<in> set forward" and inv: "P st'"
  show "P (case map_of (ndcByLength openIdx) L of
             None \<Rightarrow> st'
           | Some mapL \<Rightarrow> forwardBucket (entries openIdx) medDigits L mapL st')"
  proof (cases "map_of (ndcByLength openIdx) L")
    case None
    with inv show ?thesis by simp
  next
    case (Some mapL)
    have "P (forwardBucket (entries openIdx) medDigits L mapL st')"
      by (rule forwardBucket_invariant [where P = P, OF inv]) (rule assms(2) [OF L Some])
    with Some show ?thesis by simp
  qed
qed

lemma reverseBucket_invariant:
  assumes "P st"
    and "\<And>st key arr r. (key, arr) \<in> set mapL \<Longrightarrow> strIncludes key medDigits \<Longrightarrow>
           r \<in> set arr \<Longrightarrow> P st \<Longrightarrow> P (pushRec es Reverse st r)"
  shows "P (reverseBucket es medDigits mapL st)"
  unfolding reverseBucket_def
proof (rule foldl_invariant [where P = P])
  show "P st" by (rule assms(1))
next
  fix st' :: collectState and p :: "string \<times> indexRec list"
  assume p: "p \<in> set mapL" and inv: "P st'"
  obtain key arr where kv: "p = (key, arr)" by (cases p)
  show "P (case p of (key, arr) \<Rightarrow>
            if \<not> strIncludes key medDigits then st' else pushRecs es Reverse arr st')"
  proof (cases "strIncludes key medDigits")
    case False
    with inv show ?thesis by (simp add: kv)
  next
    case True
    have "P (pushRecs es Reverse arr st')"
      by (rule pushRecs_invariant [where P = P, OF inv]) (rule assms(2) [OF p [unfolded kv] True])
    with True show ?thesis by (simp add: kv)
  qed
qed

lemma reversePhase_invariant:
  assumes "P st"
    and "\<And>st L mapL key arr r. L \<in> set reverse \<Longrightarrow> map_of (ndcByLength openIdx) L = Some mapL \<Longrightarrow>
           (key, arr) \<in> set mapL \<Longrightarrow> strIncludes key medDigits \<Longrightarrow> r \<in> set arr \<Longrightarrow>
           P st \<Longrightarrow> P (pushRec (entries openIdx) Reverse st r)"
  shows "P (reversePhase openIdx medDigits reverse st)"
  unfolding reversePhase_def
proof (rule foldl_invariant [where P = P])
  show "P st" by (rule assms(1))
next
  fix st' :: collectState and L
  assume L: "L \<in> set reverse" and inv: "P st'"
  show "P (case map_of (ndcByLength openIdx) L of
             None \<Rightarrow> st'
           | Some mapL \<Rightarrow> reverseBucket (entries openIdx) medDigits mapL st')"
  proof (cases "map_of (ndcByLength openIdx) L")
    case None
    with inv show ?thesis by simp
  next
    case (Some mapL)
    have "P (reverseBucket (entries openIdx) medDigits mapL st')"
      by (rule reverseBucket_invariant [where P = P, OF inv]) (rule assms(2) [OF L Some])
    with Some show ?thesis by simp
  qed
qed

lemma formatOpenFdaMatcher_fields:
  "matchMode (formatOpenFdaMatcher e v vt mode) = mode"
  "normalizedProductNdc (formatOpenFdaMatcher e v vt mode) = v"
  "matchedVariantType (formatOpenFdaMatcher e v vt mode) = vt"
  "brandName (formatOpenFdaMatcher e v vt mode) = e_brandName e"
  "productNdc (formatOpenFdaMatcher e v vt mode) = e_productNdc e"
  by (simp_all add: formatOpenFdaMatcher_def)

lemma pushRec_matches:
  assumes "\<forall>m\<in>set (fst st). Q m"
    and "Q (formatOpenFdaMatcher (es ! idx r) (variant r) (vtype r) mode)"
  shows "\<forall>m\<in>set (fst (pushRec es mode st r)). Q m"
  using assms by (cases st) (auto simp: pushRec_def Let_def)

lemma pushRec_seen:
  assumes "fst st = [] \<longrightarrow> snd st = {}"
  shows "fst (pushRec es mode st r) = [] \<longrightarrow> snd (pushRec es mode st r) = {}"
  using assms by (cases st) (auto simp: pushRec_def Let_def)

lemma strIncludes_slice:
  "i + L \<le> length s \<Longrightarrow> strIncludes s (take L (drop i s))"
proof (induction s arbitrary: i)
  case Nil
  then show ?case by simp
next
  case (Cons c cs)
  show ?case
  proof (cases i)
    case 0
    with Cons.prems have "length (take L (c # cs)) = L" by simp
    with 0 show ?thesis by simp
  next
    case (Suc j)
    with Cons.prems have "j + L \<le> length cs" by simp
    from Cons.IH [OF this] Suc show ?thesis by simp
  qed
qed

text \<open>Where a match of the forward phase comes from: an index record whose variant is a
  piece of the identifier.\<close>

lemma forwardPhase_built:
  assumes "set forward \<subseteq> {L. L \<le> length medDigits}"
  shows "\<forall>m\<in>set (fst (forwardPhase (buildOpenFdaIndexes items) medDigits forward ([], {}))).
           matchMode m = Forward \<and> strIncludes medDigits (normalizedProductNdc m) \<and>
           (\<exists>L k r. (L, k, r) \<in> set (indexRecs (ndcByLength (buildOpenFdaIndexes items))) \<and>
              m = formatOpenFdaMatcher (entries (buildOpenFdaIndexes items) ! idx r)
                    (variant r) (vtype r) Forward)"
    (is "\<forall>m\<in>_. ?Q m")
proof (rule forwardPhase_invariant [where P = "\<lambda>st. \<forall>m\<in>set (fst st). ?Q m"])
  show "\<forall>m\<in>set (fst ([] :: fdaMatch list, {} :: matchSig set)). ?Q m" by simp
next
  fix st :: collectState and L mapL i arr r
  assume L: "L \<in> set forward"
    and mapL: "map_of (ndcByLength (buildOpenFdaIndexes items)) L = Some mapL"
    and i: "i \<le> length medDigits - L"
    and arr: "map_of mapL (take L (drop i medDigits)) = Some arr"
    and r: "r \<in> set arr"
    and inv: "\<forall>m\<in>set (fst st). ?Q m"
  from L assms have Lle: "L \<le> length medDigits" by auto
  have mem: "(L, take L (drop i medDigits), r) \<in> set (indexRecs (ndcByLength (buildOpenFdaIndexes items)))"
    using map_of_SomeD [OF mapL] map_of_SomeD [OF arr] r by (rule indexRecs_memI)
  then have v: "variant r = take L (drop i medDigits)"
    by (simp add: in_indexRecs_build_iff)
  from i Lle have "i + L \<le> length medDigits" by simp
  then have inc: "strIncludes medDigits (variant r)"
    unfolding v by (rule strIncludes_slice)
  have "?Q (formatOpenFdaMatcher (entries (buildOpenFdaIndexes items) ! idx r) (variant r) (vtype r) Forward)"
    using inc mem by (simp only: formatOpenFdaMatcher_fields) blast
  with inv show "\<forall>m\<in>set (fst (pushRec (entries (buildOpenFdaIndexes items)) Forward st r)). ?Q m"
    by (rule pushRec_matches)
qed

lemma reversePhase_built:
  assumes "set reverse \<subseteq> {L. length medDigits < L}"
  shows "\<forall>m\<in>set (fst (reversePhase (buildOpenFdaIndexes items) medDigits reverse ([], {}))).
           matchMode m = Reverse \<and> length medDigits < length (normalizedProductNdc m) \<and>
           strIncludes (normalizedProductNdc m) medDigits \<and>
           (\<exists>L k r. (L, k, r) \<in> set (indexRecs (ndcByLength (buildOpenFdaIndexes items))) \<and>
              m = formatOpenFdaMatcher (entries (buildOpenFdaIndexes items) ! idx r)
                    (variant r) (vtype r) Reverse)"
    (is "\<forall>m\<in>_. ?Q m")
proof (rule reversePhase_invariant [where P = "\<lambda>st. \<forall>m\<in>set (fst st). ?Q m"])
  show "\<forall>m\<in>set (fst ([] :: fdaMatch list, {} :: matchSig set)). ?Q m" by simp
next
  fix st :: collectState and L mapL key arr r
  assume L: "L \<in> set reverse"
    and mapL: "map_of (ndcByLength (buildOpenFdaIndexes items)) L = Some mapL"
    and key: "(key, arr) \<in> set mapL"
    and inc: "strIncludes key medDigits"
    and r: "r \<in> set arr"
    and inv: "\<forall>m\<in>set (fst st). ?Q m"
  from L assms have Lgt: "length medDigits < L" by auto
  have mem: "(L, key, r) \<in> set (indexRecs (ndcByLength (buildOpenFdaIndexes items)))"
    using map_of_SomeD [OF mapL] key r by (rule indexRecs_memI)
  then have v: "variant r = key" "length key = L"
    by (simp_all add: in_indexRecs_build_iff)
  have "?Q (formatOpenFdaMatcher (entries (buildOpenFdaIndexes items) ! idx r) (variant r) (vtype r) Reverse)"
    using inc mem Lgt v by (simp only: formatOpenFdaMatcher_fields) blast
  with inv show "\<forall>m\<in>set (fst (pushRec (entries (buildOpenFdaIndexes items)) Reverse st r)). ?Q m"
    by (rule pushRec_matches)
qed

lemma forwardPhase_seen:
  "fst (forwardPhase openIdx medDigits forward ([], {})) = [] \<Longrightarrow>
     forwardPhase openIdx medDigits forward ([], {}) = ([], {})"
proof -
  have "fst (forwardPhase openIdx medDigits forward ([], {})) = [] \<longrightarrow>
        snd (forwardPhase openIdx medDigits forward ([], {})) = {}"
    by (rule forwardPhase_invariant [where P = "\<lambda>st. fst st = [] \<longrightarrow> snd st = {}"])
       (simp_all add: pushRec_seen)
  then show "fst (forwardPhase openIdx medDigits forward ([], {})) = [] \<Longrightarrow>
     forwardPhase openIdx medDigits forward ([], {}) = ([], {})"
    by (cases "forwardPhase openIdx medDigits forward ([], {})") simp
qed

lemma collect_exampleMed:
  "collectOpenFdaNdcMatches (ndc exampleMed) (buildOpenFdaIndexes exampleItems) =
     [\<lparr> productNdc = ''2345-67'', normalizedProductNdc = ''234567'',
        matchedVariantType = Digits, matchMode = Forward, brandName = ''Foo'',
        genericName = [], dosageForm = None, labelerName = None, bestMatch = False \<rparr>,
      \<lparr> productNdc = ''12345-678'', normalizedProductNdc = ''12345678'',
        matchedVariantType = Digits, matchMode = Forward, brandName = ''Zed'',
        genericName = [], dosageForm = None, labelerName = None, bestMatch = False \<rparr>]"
  by code_simp

lemma forwardMatches_exampleMed:
  "forwardMatches (ndc exampleMed) (buildOpenFdaIndexes exampleItems) =
     [\<lparr> productNdc = ''2345-67'', normalizedProductNdc = ''234567'',
        matchedVariantType = Digits, matchMode = Forward, brandName = ''Foo'',
        genericName = [], dosageForm = None, labelerName = None, bestMatch = False \<rparr>,
      \<lparr> productNdc = ''12345-678'', normalizedProductNdc = ''12345678'',
        matchedVariantType = Digits, matchMode = Forward, brandName = ''Zed'',
        genericName = [], dosageForm = None, labelerName = None, bestMatch = False \<rparr>]"
  by code_simp

lemma enrichRecord_exampleMed:
  "fdaMatches (enrichRecord (buildOpenFdaIndexes exampleItems) exampleMed) =
     Some [\<lparr> productNdc = ''2345-67'', normalizedProductNdc = ''234567'',
        matchedVariantType = Digits, matchMode = Forward, brandName = ''Foo'',
        genericName = [], dosageForm = None, labelerName = None, bestMatch = True \<rparr>]"
  by code_simp

lemma collect_reverse_scenario:
  "collectOpenFdaNdcMatches ''00020323103'' (buildOpenFdaIndexes [scenarioItem]) =
     [\<lparr> productNdc = ''00002-3231-30'', normalizedProductNdc = ''000203231030'',
        matchedVariantType = ZeroFill, matchMode = Reverse, brandName = ''Foo'',
        genericName = [], dosageForm = None, labelerName = None, bestMatch = False \<rparr>,
      \<lparr> productNdc = ''00002-3231-30'', normalizedProductNdc = ''0000203231030'',
        matchedVariantType = ZeroFill, matchMode = Reverse, brandName = ''Foo'',
        genericName = [], dosageForm = None, labelerName = None, bestMatch = False \<rparr>]"
  by code_simp


lemma collect_cases:
  "collectOpenFdaNdcMatches medNdc openIdx =
     (if normalizeMedNdc medNdc = [] then []
      else if forwardMatches medNdc openIdx \<noteq> [] then forwardMatches medNdc openIdx
      else reverseMatches medNdc openIdx)"
proof -
  let ?md = "normalizeMedNdc medNdc"
  let ?fw = "forwardPhase openIdx ?md
      (filter (\<lambda>L. L \<le> length ?md) (sort (map fst (ndcByLength openIdx)))) ([], {})"
  have "?fw = ([], {})" if "fst ?fw = []"
    using that by (rule forwardPhase_seen)
  then show ?thesis
    by (auto simp: collectOpenFdaNdcMatches_def forwardMatches_def reverseMatches_def Let_def)
qed

lemma forwardMatches_built:
  "\<forall>m\<in>set (forwardMatches medNdc (buildOpenFdaIndexes items)).
     matchMode m = Forward \<and> strIncludes (normalizeMedNdc medNdc) (normalizedProductNdc m) \<and>
     (\<exists>L k r. (L, k, r) \<in> set (indexRecs (ndcByLength (buildOpenFdaIndexes items))) \<and>
        m = formatOpenFdaMatcher (entries (buildOpenFdaIndexes items) ! idx r)
              (variant r) (vtype r) Forward)"
  unfolding forwardMatches_def Let_def
  by (rule forwardPhase_built) auto

lemma reverseMatches_built:
  "\<forall>m\<in>set (reverseMatches medNdc (buildOpenFdaIndexes items)).
     matchMode m = Reverse \<and>
     length (normalizeMedNdc medNdc) < length (normalizedProductNdc m) \<and>
     strIncludes (normalizedProductNdc m) (normalizeMedNdc medNdc) \<and>
     (\<exists>L k r. (L, k, r) \<in> set (indexRecs (ndcByLength (buildOpenFdaIndexes items))) \<and>
        m = formatOpenFdaMatcher (entries (buildOpenFdaIndexes items) ! idx r)
              (variant r) (vtype r) Reverse)"
  unfolding reverseMatches_def Let_def
  by (rule reversePhase_built) auto

text \<open>
  C2. For a pricing identifier with a digit string that is not empty, the resolver returns
  the matches of the forward phase when there is one, and runs the reverse phase only when
  there is none: the result is then what the reverse phase finds. Every forward match has
  direction \<open>forward\<close> and a variant that occurs in the identifier; every reverse match has
  direction \<open>reverse\<close> and a variant longer than the identifier that contains it. Hence no
  result holds matches of both directions.
\<close>

theorem reverse_only_when_forward_empty:
  assumes "normalizeMedNdc medNdc \<noteq> []"
  shows "collectOpenFdaNdcMatches medNdc (buildOpenFdaIndexes items) =
           (if forwardMatches medNdc (buildOpenFdaIndexes items) \<noteq> []
            then forwardMatches medNdc (buildOpenFdaIndexes items)
            else reverseMatches medNdc (buildOpenFdaIndexes items)) \<and>
         (\<forall>m\<in>set (forwardMatches medNdc (buildOpenFdaIndexes items)).
            matchMode m = Forward \<and>
            strIncludes (normalizeMedNdc medNdc) (normalizedProductNdc m)) \<and>
         (\<forall>m\<in>set (reverseMatches medNdc (buildOpenFdaIndexes items)).
            matchMode m = Reverse \<and>
            length (normalizeMedNdc medNdc) < length (normalizedProductNdc m) \<and>
            strIncludes (normalizedProductNdc m) (normalizeMedNdc medNdc)) \<and>
         (\<forall>m\<in>set (collectOpenFdaNdcMatches medNdc (buildOpenFdaIndexes items)).
          \<forall>m'\<in>set (collectOpenFdaNdcMatches medNdc (buildOpenFdaIndexes items)).
            matchMode m = matchMode m')"
proof -
  let ?idx = "buildOpenFdaIndexes items"
  have c: "collectOpenFdaNdcMatches medNdc ?idx =
           (if forwardMatches medNdc ?idx \<noteq> [] then forwardMatches medNdc ?idx
            else reverseMatches medNdc ?idx)"
    using assms by (simp add: collect_cases)
  have f: "\<forall>m\<in>set (forwardMatches medNdc ?idx).
            matchMode m = Forward \<and> strIncludes (normalizeMedNdc medNdc) (normalizedProductNdc m)"
    using forwardMatches_built [of medNdc items] by blast
  have r: "\<forall>m\<in>set (reverseMatches medNdc ?idx).
            matchMode m = Reverse \<and>
            length (normalizeMedNdc medNdc) < length (normalizedProductNdc m) \<and>
            strIncludes (normalizedProductNdc m) (normalizeMedNdc medNdc)"
    using reverseMatches_built [of medNdc items] by blast
  have u: "\<forall>m\<in>set (collectOpenFdaNdcMatches medNdc ?idx).
           \<forall>m'\<in>set (collectOpenFdaNdcMatches medNdc ?idx). matchMode m = matchMode m'"
  proof (cases "forwardMatches medNdc ?idx \<noteq> []")
    case True
    with c f show ?thesis by simp
  next
    case False
    with c r show ?thesis by simp
  qed
  from c f r u show ?thesis by blast
qed

theorem reverse_only_when_forward_empty_witness:
  "normalizeMedNdc (ndc exampleMed) \<noteq> [] \<and>
   forwardMatches (ndc exampleMed) (buildOpenFdaIndexes exampleItems) \<noteq> [] \<and>
   collectOpenFdaNdcMatches (ndc exampleMed) (buildOpenFdaIndexes exampleItems) =
     forwardMatches (ndc exampleMed) (buildOpenFdaIndexes exampleItems) \<and>
   map matchMode (collectOpenFdaNdcMatches (ndc exampleMed) (buildOpenFdaIndexes exampleItems)) =
     [Forward, Forward]"
proof -
  have h: "normalizeMedNdc (ndc exampleMed) \<noteq> []"
    by code_simp
  have ne: "forwardMatches (ndc exampleMed) (buildOpenFdaIndexes exampleItems) \<noteq> []"
    by (simp add: forwardMatches_exampleMed)
  from reverse_only_when_forward_empty [OF h, of exampleItems] ne
  have "collectOpenFdaNdcMatches (ndc exampleMed) (buildOpenFdaIndexes exampleItems) =
     forwardMatches (ndc exampleMed) (buildOpenFdaIndexes exampleItems)"
    by simp
  with h ne show ?thesis
    by (simp add: forwardMatches_exampleMed)
qed

subsection \<open>Tokens and blank names\<close>

lemma splitNonAlnum_chars:
  "t \<in> set (splitNonAlnum inSep cur s) \<Longrightarrow> \<forall>c\<in>set cur. isLowerAlnum c \<Longrightarrow>
     \<forall>c\<in>set t. isLowerAlnum c"
proof (induction s arbitrary: inSep cur)
  case Nil
  then show ?case by simp
next
  case (Cons c cs)
  show ?case
  proof (cases "isLowerAlnum c")
    case True
    with Cons.prems have "t \<in> set (splitNonAlnum False (cur @ [c]) cs)" by simp
    moreover from True Cons.prems(2) have "\<forall>x\<in>set (cur @ [c]). isLowerAlnum x" by simp
    ultimately show ?thesis by (rule Cons.IH)
  next
    case False
    show ?thesis
    proof (cases inSep)
      case True
      with False Cons.prems have "t \<in> set (splitNonAlnum True cur cs)" by simp
      then show ?thesis using Cons.prems(2) by (rule Cons.IH)
    next
      case F: False
      with False Cons.prems have "t = cur \<or> t \<in> set (splitNonAlnum True [] cs)" by simp
      then show ?thesis
      proof
        assume "t = cur"
        with Cons.prems(2) show ?thesis by simp
      next
        assume "t \<in> set (splitNonAlnum True [] cs)"
        then show ?thesis by (rule Cons.IH) simp
      qed
    qed
  qed
qed

lemma tokenizeWords_token:
  "t \<in> set (tokenizeWords s) \<Longrightarrow> 3 \<le> length t \<and> (\<forall>c\<in>set t. isLowerAlnum c)"
proof -
  assume "t \<in> set (tokenizeWords s)"
  then have len: "3 \<le> length t"
    and mem: "t \<in> set (splitNonAlnum False [] (normalizeWhitespaceLower s))"
    by (simp_all add: tokenizeWords_def)
  from mem have "\<forall>c\<in>set t. isLowerAlnum c"
    by (rule splitNonAlnum_chars) simp
  with len show ?thesis by simp
qed

lemma isSpace_toLowerChar: "isSpace c \<Longrightarrow> toLowerChar c = c"
proof -
  assume "isSpace c"
  then have "c \<notin> set ''ABCDEFGHIJKLMNOPQRSTUVWXYZ''"
    by (auto simp: isSpace_def)
  then show ?thesis by (simp add: toLowerChar_def)
qed

lemma isSpace_space: "isSpace (CHR '' '')"
  by (simp add: isSpace_def)

lemma collapseSpaces_blank:
  "\<forall>c\<in>set s. isSpace c \<Longrightarrow> \<forall>c\<in>set (collapseSpaces inRun s). isSpace c"
  by (induction s arbitrary: inRun) (simp_all add: isSpace_space)

lemma trim_blank: "\<forall>c\<in>set s. isSpace c \<Longrightarrow> trim s = []"
proof -
  assume a: "\<forall>c\<in>set s. isSpace c"
  then have d: "dropWhile isSpace s = []" by simp
  show ?thesis unfolding trim_def d by simp
qed

lemma normalizeWhitespaceLower_blank:
  assumes "\<forall>c\<in>set s. isSpace c"
  shows "normalizeWhitespaceLower s = []"
proof -
  from assms have "toLowerCase s = s"
    by (simp add: toLowerCase_def isSpace_toLowerChar map_idI)
  with assms have "\<forall>c\<in>set (collapseSpaces False (toLowerCase s)). isSpace c"
    by (simp add: collapseSpaces_blank)
  then show ?thesis
    by (simp add: normalizeWhitespaceLower_def trim_blank)
qed

lemma hasBrand_not_blank:
  "0 < length (normalizeWhitespaceLower s) \<Longrightarrow> \<exists>c\<in>set s. \<not> isSpace c"
  using normalizeWhitespaceLower_blank [of s] by auto

lemma toLowerChar_idem: "toLowerChar (toLowerChar c) = toLowerChar c"
proof (cases "c \<in> set ''ABCDEFGHIJKLMNOPQRSTUVWXYZ''")
  case True
  then show ?thesis by (auto simp: toLowerChar_def)
next
  case False
  then have "toLowerChar c = c" by (simp add: toLowerChar_def)
  then show ?thesis by simp
qed

text \<open>Tokens do not depend on the case of the letters of the text.\<close>

lemma tokenizeWords_ignores_case: "tokenizeWords (toLowerCase s) = tokenizeWords s"
proof -
  have "toLowerChar \<circ> toLowerChar = toLowerChar"
    by (rule ext) (simp add: toLowerChar_idem)
  then show ?thesis
    by (simp add: tokenizeWords_def normalizeWhitespaceLower_def toLowerCase_def)
qed

subsection \<open>Semantic filter and best matches\<close>

lemma brandFilter_survivor:
  assumes "m \<in> set (brandFilter description matches)"
  shows "m \<in> set matches \<and> (\<exists>c\<in>set (brandName m). \<not> isSpace c) \<and>
         (\<exists>t. t \<in> set (tokenizeWords (brandName m)) \<and> t \<in> set (tokenizeWords description) \<and>
              3 \<le> length t \<and> (\<forall>c\<in>set t. isLowerAlnum c))"
proof -
  from assms have mem: "m \<in> set matches"
    and hb: "0 < length (normalizeWhitespaceLower (brandName m))"
    and ov: "list_ex (\<lambda>t. t \<in> set (tokenizeWords description)) (tokenizeWords (brandName m))"
    by (auto simp: brandFilter_def Let_def split: if_splits)
  from ov obtain t where t: "t \<in> set (tokenizeWords (brandName m))"
    "t \<in> set (tokenizeWords description)"
    by (auto simp: list_ex_iff)
  from tokenizeWords_token [OF t(1)] t hasBrand_not_blank [OF hb] mem
  show ?thesis by blast
qed

lemma variantLength_eq: "variantLength m = length (normalizedProductNdc m)"
  by (simp add: variantLength_def)

lemma Max_positive_part:
  fixes xs :: "nat list"
  assumes "xs \<noteq> []"
  shows "(if filter (\<lambda>L. 0 < L) xs \<noteq> [] then Max (set (filter (\<lambda>L. 0 < L) xs)) else 0) = Max (set xs)"
proof (cases "filter (\<lambda>L. 0 < L) xs \<noteq> []")
  case True
  define ps where "ps = filter (\<lambda>L. 0 < L) xs"
  from True have "ps \<noteq> []" unfolding ps_def .
  then have ne: "set ps \<noteq> {}" by (simp only: set_empty not_False_eq_True)
  have sub: "set ps \<subseteq> set xs" by (auto simp: ps_def)
  have le: "Max (set ps) \<le> Max (set xs)"
    using sub ne by (rule Max_mono) simp
  from ne have "Max (set ps) \<in> set ps" by (intro Max_in) simp_all
  then have pos: "0 < Max (set ps)" by (simp add: ps_def)
  from assms have "Max (set xs) \<in> set xs" by (intro Max_in) simp_all
  moreover from le pos have "0 < Max (set xs)" by simp
  ultimately have "Max (set xs) \<in> set ps" by (simp add: ps_def)
  then have "Max (set xs) \<le> Max (set ps)" by (intro Max_ge) simp_all
  with le True show ?thesis by (simp add: ps_def)
next
  case False
  then have z: "\<And>x. x \<in> set xs \<Longrightarrow> x = 0" by (auto simp: filter_empty_conv)
  from assms have "Max (set xs) \<in> set xs" by (intro Max_in) simp_all
  then have "Max (set xs) = 0" by (rule z)
  with False show ?thesis by simp
qed

lemma keepBest_eq:
  "keepBest matches =
     map (\<lambda>m. m\<lparr> bestMatch := True \<rparr>)
       (filter (\<lambda>m. variantLength m = Max (set (map variantLength matches))) matches)"
proof (cases "matches = []")
  case True
  then show ?thesis by (simp add: keepBest_def)
next
  case False
  then have "map variantLength matches \<noteq> []" by simp
  from Max_positive_part [OF this] have
    "(if filter (\<lambda>L. 0 < L) (map variantLength matches) \<noteq> []
      then Max (set (filter (\<lambda>L. 0 < L) (map variantLength matches))) else 0) =
     Max (set (map variantLength matches))" .
  with False show ?thesis
    unfolding keepBest_def Let_def by simp
qed

lemma keepBest_nonempty: "matches \<noteq> [] \<Longrightarrow> keepBest matches \<noteq> []"
proof -
  assume ne: "matches \<noteq> []"
  let ?ls = "map variantLength matches"
  from ne have "Max (set ?ls) \<in> set ?ls" by (intro Max_in) simp_all
  then obtain m where "m \<in> set matches" "variantLength m = Max (set ?ls)"
    by auto
  then have "filter (\<lambda>m. variantLength m = Max (set ?ls)) matches \<noteq> []"
    by (auto simp: filter_empty_conv)
  then show ?thesis unfolding keepBest_eq by simp
qed

lemma keepBest_empty_iff: "keepBest matches = [] \<longleftrightarrow> matches = []"
  using keepBest_nonempty [of matches] by (auto simp: keepBest_def)

lemma fdaMatches_enrichRecord:
  "fdaMatches (enrichRecord openIdx med) =
     (let survivors = brandFilter (ndc_description med) (collectOpenFdaNdcMatches (ndc med) openIdx)
      in if survivors = [] then None else Some (keepBest survivors))"
  by (simp add: enrichRecord_def Let_def keepBest_empty_iff)

lemma entries_build: "entries (buildOpenFdaIndexes items) = map toEntry items"
  by (simp add: buildOpenFdaIndexes_def Let_def)

lemma collect_from_entry:
  assumes "m \<in> set (collectOpenFdaNdcMatches medNdc (buildOpenFdaIndexes items))"
  shows "\<exists>i<length items. brandName m = e_brandName (toEntry (items ! i)) \<and>
           productNdc m = e_productNdc (toEntry (items ! i))"
proof -
  from assms have "m \<in> set (forwardMatches medNdc (buildOpenFdaIndexes items)) \<or>
      m \<in> set (reverseMatches medNdc (buildOpenFdaIndexes items))"
    by (auto simp: collect_cases split: if_splits)
  then obtain L k r mode where mem: "(L, k, r) \<in> set (indexRecs (ndcByLength (buildOpenFdaIndexes items)))"
    and m: "m = formatOpenFdaMatcher (entries (buildOpenFdaIndexes items) ! idx r) (variant r) (vtype r) mode"
    using forwardMatches_built [of medNdc items] reverseMatches_built [of medNdc items] by blast
  from mem have i: "idx r < length items" by (simp add: in_indexRecs_build_iff)
  then have "entries (buildOpenFdaIndexes items) ! idx r = toEntry (items ! idx r)"
    by (simp add: entries_build)
  with m have "brandName m = e_brandName (toEntry (items ! idx r)) \<and>
           productNdc m = e_productNdc (toEntry (items ! idx r))"
    by (simp add: formatOpenFdaMatcher_fields)
  with i show ?thesis by blast
qed

lemma keepBest_member:
  assumes "m \<in> set (keepBest matches)"
  shows "\<exists>s\<in>set matches. m = s\<lparr> bestMatch := True \<rparr> \<and>
           variantLength s = Max (set (map variantLength matches))"
  using assms unfolding keepBest_eq by auto

lemma variantLength_bestMatch: "variantLength (s\<lparr> bestMatch := True \<rparr>) = variantLength s"
  by (simp add: variantLength_def)

text \<open>
  C1, as the code has it. The best matches are chosen after the semantic filter, among the
  candidates that survived it. For every enriched record with a match list, the list is not
  empty and holds exactly the survivors of the filter whose variant is longest among the
  survivors, in their order, each marked as best; so all its entries have the same variant
  length, the maximum over the survivors. (\<^const>\<open>variantLength\<close> is the length of the
  variant string of a match.)
\<close>

theorem best_matches_are_longest_survivors:
  assumes "fdaMatches (enrichRecord (buildOpenFdaIndexes items) med) = Some ms"
  shows "ms \<noteq> [] \<and>
         ms = map (\<lambda>s. s\<lparr> bestMatch := True \<rparr>)
                (filter (\<lambda>s. variantLength s =
                     Max (set (map variantLength
                       (brandFilter (ndc_description med)
                          (collectOpenFdaNdcMatches (ndc med) (buildOpenFdaIndexes items))))))
                   (brandFilter (ndc_description med)
                      (collectOpenFdaNdcMatches (ndc med) (buildOpenFdaIndexes items)))) \<and>
         (\<forall>m\<in>set ms.
            variantLength m = length (normalizedProductNdc m) \<and>
            variantLength m =
              Max (set (map variantLength
                (brandFilter (ndc_description med)
                   (collectOpenFdaNdcMatches (ndc med) (buildOpenFdaIndexes items)))))) \<and>
         (\<forall>m\<in>set ms. \<forall>m'\<in>set ms.
            length (normalizedProductNdc m) = length (normalizedProductNdc m'))"
proof -
  let ?sv = "brandFilter (ndc_description med)
      (collectOpenFdaNdcMatches (ndc med) (buildOpenFdaIndexes items))"
  from assms have ne: "?sv \<noteq> []" and ms: "ms = keepBest ?sv"
    by (auto simp: fdaMatches_enrichRecord Let_def split: if_splits)
  from ne ms have a: "ms \<noteq> []" by (simp add: keepBest_nonempty)
  have b: "ms = map (\<lambda>s. s\<lparr> bestMatch := True \<rparr>)
      (filter (\<lambda>s. variantLength s = Max (set (map variantLength ?sv))) ?sv)"
    unfolding ms by (rule keepBest_eq)
  have c: "variantLength m = length (normalizedProductNdc m) \<and>
      variantLength m = Max (set (map variantLength ?sv))" if "m \<in> set ms" for m
  proof -
    from that obtain s where "s \<in> set ?sv" "m = s\<lparr> bestMatch := True \<rparr>"
      "variantLength s = Max (set (map variantLength ?sv))"
      unfolding ms using keepBest_member by blast
    then show ?thesis
      by (simp add: variantLength_bestMatch variantLength_eq)
  qed
  have d: "length (normalizedProductNdc m) = length (normalizedProductNdc m')"
    if "m \<in> set ms" "m' \<in> set ms" for m m'
    using c [OF that(1)] c [OF that(2)] by simp
  from a b c d show ?thesis by blast
qed

theorem best_matches_are_longest_survivors_witness:
  "fdaMatches (enrichRecord (buildOpenFdaIndexes exampleItems) exampleMed) =
     Some [\<lparr> productNdc = ''2345-67'', normalizedProductNdc = ''234567'',
        matchedVariantType = Digits, matchMode = Forward, brandName = ''Foo'',
        genericName = [], dosageForm = None, labelerName = None, bestMatch = True \<rparr>] \<and>
   Max (set (map variantLength
     (brandFilter (ndc_description exampleMed)
        (collectOpenFdaNdcMatches (ndc exampleMed) (buildOpenFdaIndexes exampleItems))))) = 6"
proof -
  note h = enrichRecord_exampleMed
  from best_matches_are_longest_survivors [OF h]
  have "variantLength \<lparr> productNdc = ''2345-67'', normalizedProductNdc = ''234567'',
        matchedVariantType = Digits, matchMode = Forward, brandName = ''Foo'',
        genericName = [], dosageForm = None, labelerName = None, bestMatch = True \<rparr> =
      Max (set (map variantLength
        (brandFilter (ndc_description exampleMed)
          (collectOpenFdaNdcMatches (ndc exampleMed) (buildOpenFdaIndexes exampleItems)))))"
    by simp
  then have "Max (set (map variantLength
        (brandFilter (ndc_description exampleMed)
          (collectOpenFdaNdcMatches (ndc exampleMed) (buildOpenFdaIndexes exampleItems))))) = 6"
    by (simp add: variantLength_def)
  with h show ?thesis by simp
qed

theorem best_match_shorter_than_filtered_candidate_counterexample:
  "map variantLength
     (collectOpenFdaNdcMatches (ndc exampleMed) (buildOpenFdaIndexes exampleItems)) = [6, 8] \<and>
   fdaMatches (enrichRecord (buildOpenFdaIndexes exampleItems) exampleMed) =
     Some [\<lparr> productNdc = ''2345-67'', normalizedProductNdc = ''234567'',
        matchedVariantType = Digits, matchMode = Forward, brandName = ''Foo'',
        genericName = [], dosageForm = None, labelerName = None, bestMatch = True \<rparr>] \<and>
   length ''234567'' \<noteq> Max (set (map variantLength
     (collectOpenFdaNdcMatches (ndc exampleMed) (buildOpenFdaIndexes exampleItems))))"
  by (simp add: collect_exampleMed enrichRecord_exampleMed variantLength_def)

text \<open>
  C5. A match that survives the semantic filter has a brand name that is not blank (it has
  a character that is not white space), and a token of the brand name is a token of the
  description; tokens have at least three characters, all of them lower-case letters or
  digits. The same holds for every match of an enriched record, whose brand name is the
  one of an entry of the reference list.
\<close>

theorem surviving_match_shares_token:
  "(\<forall>description matches m.
      m \<in> set (brandFilter description matches) \<longrightarrow>
        (\<exists>c\<in>set (brandName m). \<not> isSpace c) \<and>
        (\<exists>t. t \<in> set (tokenizeWords (brandName m)) \<and> t \<in> set (tokenizeWords description) \<and>
             3 \<le> length t \<and> (\<forall>c\<in>set t. isLowerAlnum c))) \<and>
   (\<forall>items med ms m.
      fdaMatches (enrichRecord (buildOpenFdaIndexes items) med) = Some ms \<longrightarrow> m \<in> set ms \<longrightarrow>
        (\<exists>c\<in>set (brandName m). \<not> isSpace c) \<and>
        (\<exists>t. t \<in> set (tokenizeWords (brandName m)) \<and>
             t \<in> set (tokenizeWords (ndc_description med)) \<and>
             3 \<le> length t \<and> (\<forall>c\<in>set t. isLowerAlnum c)) \<and>
        (\<exists>i<length items. brandName m = e_brandName (toEntry (items ! i)) \<and>
             productNdc m = e_productNdc (toEntry (items ! i))))"
proof -
  have a: "(\<exists>c\<in>set (brandName m). \<not> isSpace c) \<and>
        (\<exists>t. t \<in> set (tokenizeWords (brandName m)) \<and> t \<in> set (tokenizeWords description) \<and>
             3 \<le> length t \<and> (\<forall>c\<in>set t. isLowerAlnum c))"
    if "m \<in> set (brandFilter description matches)" for description matches m
    using brandFilter_survivor [OF that] by blast
  have b: "(\<exists>c\<in>set (brandName m). \<not> isSpace c) \<and>
        (\<exists>t. t \<in> set (tokenizeWords (brandName m)) \<and>
             t \<in> set (tokenizeWords (ndc_description med)) \<and>
             3 \<le> length t \<and> (\<forall>c\<in>set t. isLowerAlnum c)) \<and>
        (\<exists>i<length items. brandName m = e_brandName (toEntry (items ! i)) \<and>
             productNdc m = e_productNdc (toEntry (items ! i)))"
    if h: "fdaMatches (enrichRecord (buildOpenFdaIndexes items) med) = Some ms" and m: "m \<in> set ms"
    for items med ms m
  proof -
    let ?cs = "collectOpenFdaNdcMatches (ndc med) (buildOpenFdaIndexes items)"
    let ?sv = "brandFilter (ndc_description med) ?cs"
    from h have ms: "ms = keepBest ?sv"
      by (auto simp: fdaMatches_enrichRecord Let_def split: if_splits)
    from m obtain s where s: "s \<in> set ?sv" and ms': "m = s\<lparr> bestMatch := True \<rparr>"
      unfolding ms using keepBest_member by blast
    from brandFilter_survivor [OF s] have sc: "s \<in> set ?cs" by blast
    from ms' have eq: "brandName m = brandName s" "productNdc m = productNdc s" by simp_all
    from a [OF s] collect_from_entry [OF sc] show ?thesis
      unfolding eq by blast
  qed
  from a b show ?thesis by blast
qed

theorem surviving_match_shares_token_witness:
  "\<lparr> productNdc = ''2345-67'', normalizedProductNdc = ''234567'',
        matchedVariantType = Digits, matchMode = Forward, brandName = ''Foo'',
        genericName = [], dosageForm = None, labelerName = None, bestMatch = False \<rparr>
     \<in> set (brandFilter ''FOO 10 MG TABLET''
        (collectOpenFdaNdcMatches (ndc exampleMed) (buildOpenFdaIndexes exampleItems))) \<and>
   (\<exists>t. t \<in> set (tokenizeWords ''Foo'') \<and> t \<in> set (tokenizeWords ''FOO 10 MG TABLET'') \<and>
        3 \<le> length t \<and> (\<forall>c\<in>set t. isLowerAlnum c))"
proof -
  have mem: "\<lparr> productNdc = ''2345-67'', normalizedProductNdc = ''234567'',
        matchedVariantType = Digits, matchMode = Forward, brandName = ''Foo'',
        genericName = [], dosageForm = None, labelerName = None, bestMatch = False \<rparr>
     \<in> set (brandFilter ''FOO 10 MG TABLET''
        (collectOpenFdaNdcMatches (ndc exampleMed) (buildOpenFdaIndexes exampleItems)))"
    unfolding collect_exampleMed by code_simp
  from surviving_match_shares_token have "\<forall>description matches m.
      m \<in> set (brandFilter description matches) \<longrightarrow>
        (\<exists>c\<in>set (brandName m). \<not> isSpace c) \<and>
        (\<exists>t. t \<in> set (tokenizeWords (brandName m)) \<and> t \<in> set (tokenizeWords description) \<and>
             3 \<le> length t \<and> (\<forall>c\<in>set t. isLowerAlnum c))"
    by (elim conjE)
  from this [rule_format, OF mem] mem show ?thesis
    by simp
qed

subsection \<open>Entries without a match\<close>

lemma enrichRecord_unmatched:
  "brandFilter (ndc_description med) (collectOpenFdaNdcMatches (ndc med) openIdx) = [] \<Longrightarrow>
     enrichRecord openIdx med = shortRecord med"
  by (simp add: enrichRecord_def Let_def keepBest_def shortRecord_def)

lemma enrichRecord_keys:
  "ndc_description (enrichRecord openIdx med) = ndc_description med \<and>
   ndc (enrichRecord openIdx med) = ndc med"
  by (simp add: enrichRecord_def Let_def)

text \<open>
  C6, as the code has it. An entry whose filtered candidate list is empty is never dropped:
  the enriched output has one record per entry, at the entry's position, and the record of
  such an entry carries no match list. It keeps the description and the identifier of the
  entry and nothing else: the unit price, the pricing unit, the classification, the OTC
  flag and the provenance properties are left out.
\<close>

theorem unmatched_entry_kept_short:
  "length (enrich (buildOpenFdaIndexes items) uniqueMed) = length uniqueMed \<and>
   (\<forall>i<length uniqueMed.
      brandFilter (ndc_description (uniqueMed ! i))
        (collectOpenFdaNdcMatches (ndc (uniqueMed ! i)) (buildOpenFdaIndexes items)) = [] \<longrightarrow>
      enrich (buildOpenFdaIndexes items) uniqueMed ! i = shortRecord (uniqueMed ! i) \<and>
      fdaMatches (enrich (buildOpenFdaIndexes items) uniqueMed ! i) = None \<and>
      ndc_description (enrich (buildOpenFdaIndexes items) uniqueMed ! i) =
        ndc_description (uniqueMed ! i) \<and>
      ndc (enrich (buildOpenFdaIndexes items) uniqueMed ! i) = ndc (uniqueMed ! i) \<and>
      pricing_unit (enrich (buildOpenFdaIndexes items) uniqueMed ! i) = None \<and>
      nadac_per_unit (enrich (buildOpenFdaIndexes items) uniqueMed ! i) = None \<and>
      classification_for_rate_setting (enrich (buildOpenFdaIndexes items) uniqueMed ! i) = None \<and>
      otc (enrich (buildOpenFdaIndexes items) uniqueMed ! i) = None)"
  by (simp add: enrich_def enrichRecord_unmatched) (simp add: shortRecord_def)

theorem unmatched_entry_kept_short_witness:
  "brandFilter (ndc_description ([exampleMed] ! 0))
     (collectOpenFdaNdcMatches (ndc ([exampleMed] ! 0)) (buildOpenFdaIndexes [])) = [] \<and>
   enrich (buildOpenFdaIndexes []) [exampleMed] ! 0 = shortRecord exampleMed"
proof -
  have h: "brandFilter (ndc_description ([exampleMed] ! 0))
     (collectOpenFdaNdcMatches (ndc ([exampleMed] ! 0)) (buildOpenFdaIndexes [])) = []"
    by code_simp
  from unmatched_entry_kept_short [of "[]" "[exampleMed]"] h
  have "enrich (buildOpenFdaIndexes []) [exampleMed] ! 0 = shortRecord ([exampleMed] ! 0)"
    by simp
  with h show ?thesis by simp
qed

theorem unmatched_entry_loses_fields_counterexample:
  "brandFilter (ndc_description exampleMed)
     (collectOpenFdaNdcMatches (ndc exampleMed) (buildOpenFdaIndexes [])) = [] \<and>
   pricing_unit exampleMed = Some ''EA'' \<and>
   pricing_unit (enrichRecord (buildOpenFdaIndexes []) exampleMed) = None \<and>
   nadac_per_unit exampleMed = Some ''0.12'' \<and>
   nadac_per_unit (enrichRecord (buildOpenFdaIndexes []) exampleMed) = None"
  by code_simp

subsection \<open>File names\<close>

lemma showNat_nonempty: "showNat n \<noteq> []"
  by (subst showNat.simps) simp

lemma digitChar_inj: "a < 10 \<Longrightarrow> b < 10 \<Longrightarrow> digitChar a = digitChar b \<Longrightarrow> a = b"
proof -
  assume a: "a < 10" and b: "b < 10" and eq: "digitChar a = digitChar b"
  have d: "distinct ''0123456789''" by simp
  from a b have "a < length ''0123456789''" "b < length ''0123456789''" by simp_all
  with d eq show "a = b"
    unfolding digitChar_def by (simp only: nth_eq_iff_index_eq)
qed

lemma showNat_inj: "showNat a = showNat b \<Longrightarrow> a = b"
proof (induction a arbitrary: b rule: showNat.induct)
  case (1 n)
  show ?case
  proof (cases "n < 10")
    case True
    then have sn: "showNat n = [digitChar n]" by (subst showNat.simps) simp
    show ?thesis
    proof (cases "b < 10")
      case b: True
      then have "showNat b = [digitChar b]" by (subst showNat.simps) simp
      with sn "1.prems" have "digitChar n = digitChar b" by simp
      with True b show ?thesis by (rule digitChar_inj)
    next
      case b: False
      then have "showNat b = showNat (b div 10) @ [digitChar (b mod 10)]"
        by (subst showNat.simps) simp
      with sn "1.prems" have "showNat (b div 10) = []" by simp
      with showNat_nonempty show ?thesis by blast
    qed
  next
    case False
    then have sn: "showNat n = showNat (n div 10) @ [digitChar (n mod 10)]"
      by (subst showNat.simps) simp
    show ?thesis
    proof (cases "b < 10")
      case b: True
      then have "showNat b = [digitChar b]" by (subst showNat.simps) simp
      with sn "1.prems" have "showNat (n div 10) = []" by simp
      with showNat_nonempty show ?thesis by blast
    next
      case b: False
      then have "showNat b = showNat (b div 10) @ [digitChar (b mod 10)]"
        by (subst showNat.simps) simp
      with sn "1.prems" have e1: "showNat (n div 10) = showNat (b div 10)"
        and e2: "digitChar (n mod 10) = digitChar (b mod 10)" by simp_all
      from "1.IH" [OF False e1] have d: "n div 10 = b div 10" .
      have "n mod 10 = b mod 10"
        by (rule digitChar_inj [OF _ _ e2]) simp_all
      with d show ?thesis by (metis div_mult_mod_eq)
    qed
  qed
qed

lemma chunkPath_inj: "chunkPath a = chunkPath b \<Longrightarrow> a = b"
  by (simp add: chunkPath_def pathJoin_def chunkFileName_def showNat_inj)

lemma chunkPath_not_other:
  "chunkPath k \<noteq> MANIFEST_PATH" "chunkPath k \<noteq> DESC_CLASS_MAP_PATH"
  "chunkPath k \<noteq> OUT_ENRICHED_PUBLIC" "chunkPath k \<noteq> OUT_SEARCH_INDEX_PUBLIC"
  by (simp_all add: chunkPath_def pathJoin_def chunkFileName_def MANIFEST_PATH_def
      DESC_CLASS_MAP_PATH_def OUT_ENRICHED_PUBLIC_def OUT_SEARCH_INDEX_PUBLIC_def
      ENRICHED_CHUNKS_DIR_def PUBLIC_DATA_DIR_def)

lemma paths_distinct:
  "distinct [OUT_ENRICHED_PUBLIC, OUT_SEARCH_INDEX_PUBLIC, MANIFEST_PATH, DESC_CLASS_MAP_PATH]"
  by (simp add: pathJoin_def MANIFEST_PATH_def
      DESC_CLASS_MAP_PATH_def OUT_ENRICHED_PUBLIC_def OUT_SEARCH_INDEX_PUBLIC_def
      ENRICHED_CHUNKS_DIR_def PUBLIC_DATA_DIR_def)

lemma rmSync_keeps:
  "rmSync fs ENRICHED_CHUNKS_DIR OUT_ENRICHED_PUBLIC = fs OUT_ENRICHED_PUBLIC"
  "rmSync fs ENRICHED_CHUNKS_DIR OUT_SEARCH_INDEX_PUBLIC = fs OUT_SEARCH_INDEX_PUBLIC"
  by (simp_all add: rmSync_def pathJoin_def OUT_ENRICHED_PUBLIC_def OUT_SEARCH_INDEX_PUBLIC_def
      ENRICHED_CHUNKS_DIR_def PUBLIC_DATA_DIR_def)



subsection \<open>The chunk loop\<close>

lemma slicesFrom_step:
  "i < length xs \<Longrightarrow> slicesFrom i xs = take chunkSize (drop i xs) # slicesFrom (i + chunkSize) xs"
  by (subst slicesFrom.simps) simp

lemma slicesFrom_done: "\<not> i < length xs \<Longrightarrow> slicesFrom i xs = []"
  by (subst slicesFrom.simps) simp

lemma concat_slicesFrom: "concat (slicesFrom i xs) = drop i xs"
proof (induction i xs rule: slicesFrom.induct)
  case (1 i xs)
  show ?case
  proof (cases "i < length xs")
    case True
    have "take chunkSize (drop i xs) @ drop (i + chunkSize) xs = drop i xs"
      by (metis add.commute append_take_drop_id drop_drop)
    with True "1.IH" show ?thesis by (simp add: slicesFrom_step)
  next
    case False
    then show ?thesis by (simp add: slicesFrom_done)
  qed
qed

lemma slicesFrom_full:
  "Suc j < length (slicesFrom i xs) \<Longrightarrow> length (slicesFrom i xs ! j) = chunkSize"
proof (induction i xs arbitrary: j rule: slicesFrom.induct)
  case (1 i xs)
  show ?case
  proof (cases "i < length xs")
    case True
    note st = slicesFrom_step [OF True]
    show ?thesis
    proof (cases j)
      case 0
      with "1.prems" st have "slicesFrom (i + chunkSize) xs \<noteq> []" by auto
      then have "i + chunkSize < length xs"
        using slicesFrom_done [of "i + chunkSize" xs] by blast
      with 0 st show ?thesis by simp
    next
      case (Suc j')
      with "1.prems" st have "Suc j' < length (slicesFrom (i + chunkSize) xs)" by simp
      from "1.IH" [OF True this] Suc st show ?thesis by simp
    qed
  next
    case False
    with "1.prems" show ?thesis by (simp add: slicesFrom_done)
  qed
qed

lemma slicesFrom_bounds:
  "s \<in> set (slicesFrom i xs) \<Longrightarrow> 0 < length s \<and> length s \<le> chunkSize"
proof (induction i xs rule: slicesFrom.induct)
  case (1 i xs)
  show ?case
  proof (cases "i < length xs")
    case True
    with "1.prems" have "s = take chunkSize (drop i xs) \<or> s \<in> set (slicesFrom (i + chunkSize) xs)"
      by (simp add: slicesFrom_step)
    then show ?thesis
    proof
      assume "s = take chunkSize (drop i xs)"
      with True show ?thesis by (simp add: chunkSize_def)
    next
      assume "s \<in> set (slicesFrom (i + chunkSize) xs)"
      with "1.IH" [OF True] show ?thesis by simp
    qed
  next
    case False
    with "1.prems" show ?thesis by (simp add: slicesFrom_done)
  qed
qed

lemma chunkLoop_step:
  assumes "i < length e"
  shows "chunkLoop w e i metas fs =
     (if w (chunkPath (Suc (length metas)))
      then chunkLoop w e (i + chunkSize)
             (metas @ [\<lparr> filename = chunkFileName (Suc (length metas)),
                          count = length (take chunkSize (drop i e)) \<rparr>])
             (fs(chunkPath (Suc (length metas)) \<mapsto> EnrichedFile (take chunkSize (drop i e))))
      else Inl fs)"
  using assms
  by (subst chunkLoop.simps) (simp add: Let_def writeFileSync_def chunkPath_def)

lemma chunkLoop_done: "\<not> i < length e \<Longrightarrow> chunkLoop w e i metas fs = Inr (metas, fs)"
  by (subst chunkLoop.simps) simp

lemma chunkLoop_Inr:
  "chunkLoop w e i metas fs = Inr (metas', fs') \<Longrightarrow>
     metas' = metas @ map (\<lambda>(k, s). \<lparr> filename = chunkFileName k, count = length s \<rparr>)
                        (enumerate (Suc (length metas)) (slicesFrom i e)) \<and>
     (\<forall>j<length (slicesFrom i e).
        w (chunkPath (Suc (length metas) + j)) \<and>
        fs' (chunkPath (Suc (length metas) + j)) = Some (EnrichedFile (slicesFrom i e ! j))) \<and>
     (\<forall>p. (\<forall>j<length (slicesFrom i e). p \<noteq> chunkPath (Suc (length metas) + j)) \<longrightarrow> fs' p = fs p)"
proof (induction i e arbitrary: metas fs rule: slicesFrom.induct)
  case (1 i e)
  show ?case
  proof (cases "i < length e")
    case False
    with "1.prems" show ?thesis
      by (simp add: chunkLoop_done slicesFrom_done)
  next
    case True
    let ?n = "Suc (length metas)"
    let ?slice = "take chunkSize (drop i e)"
    let ?metas1 = "metas @ [\<lparr> filename = chunkFileName ?n, count = length ?slice \<rparr>]"
    let ?fs1 = "fs(chunkPath ?n \<mapsto> EnrichedFile ?slice)"
    let ?rest = "slicesFrom (i + chunkSize) e"
    note st = slicesFrom_step [OF True]
    from "1.prems" have wn: "w (chunkPath ?n)"
      and rec: "chunkLoop w e (i + chunkSize) ?metas1 ?fs1 = Inr (metas', fs')"
      by (simp_all add: chunkLoop_step [OF True] split: if_splits)
    from "1.IH" [OF True rec]
    have m: "metas' = ?metas1 @ map (\<lambda>(k, s). \<lparr> filename = chunkFileName k, count = length s \<rparr>)
                        (enumerate (Suc (length ?metas1)) ?rest)"
      and f: "\<And>j. j < length ?rest \<Longrightarrow>
        w (chunkPath (Suc (length ?metas1) + j)) \<and>
        fs' (chunkPath (Suc (length ?metas1) + j)) = Some (EnrichedFile (?rest ! j))"
      and fr: "\<And>p. (\<forall>j<length ?rest. p \<noteq> chunkPath (Suc (length ?metas1) + j)) \<Longrightarrow> fs' p = ?fs1 p"
      by blast+
    have a: "metas' = metas @ map (\<lambda>(k, s). \<lparr> filename = chunkFileName k, count = length s \<rparr>)
                        (enumerate ?n (slicesFrom i e))"
      using m by (simp add: st)
    have first: "fs' (chunkPath ?n) = Some (EnrichedFile ?slice)"
    proof -
      have "\<forall>j<length ?rest. chunkPath ?n \<noteq> chunkPath (Suc (length ?metas1) + j)"
        by (auto dest: chunkPath_inj)
      from fr [OF this] show ?thesis by simp
    qed
    have b: "w (chunkPath (?n + j)) \<and>
        fs' (chunkPath (?n + j)) = Some (EnrichedFile (slicesFrom i e ! j))"
      if "j < length (slicesFrom i e)" for j
    proof (cases j)
      case 0
      with wn first st show ?thesis by simp
    next
      case (Suc j')
      with that st have "j' < length ?rest" by simp
      from f [OF this] Suc st show ?thesis by simp
    qed
    have c: "fs' p = fs p" if p: "\<forall>j<length (slicesFrom i e). p \<noteq> chunkPath (?n + j)" for p
    proof -
      from p st have p0: "p \<noteq> chunkPath ?n" by force
      have "\<forall>j<length ?rest. p \<noteq> chunkPath (Suc (length ?metas1) + j)"
      proof (intro allI impI)
        fix j assume "j < length ?rest"
        then have "Suc j < length (slicesFrom i e)" by (simp add: st)
        with p have "p \<noteq> chunkPath (?n + Suc j)" by blast
        then show "p \<noteq> chunkPath (Suc (length ?metas1) + j)" by simp
      qed
      from fr [OF this] p0 show ?thesis by simp
    qed
    from a b c show ?thesis by blast
  qed
qed

lemma chunkLoop_frame:
  assumes "\<And>k. p \<noteq> chunkPath k"
  shows "case chunkLoop w e i metas fs of Inl f \<Rightarrow> f p = fs p | Inr (ms, f) \<Rightarrow> f p = fs p"
proof (induction i e arbitrary: metas fs rule: slicesFrom.induct)
  case (1 i e)
  show ?case
  proof (cases "i < length e")
    case False
    then show ?thesis by (simp add: chunkLoop_done)
  next
    case True
    show ?thesis
    proof (cases "w (chunkPath (Suc (length metas)))")
      case w: False
      with True show ?thesis by (simp add: chunkLoop_step)
    next
      case w: True
      let ?metas1 = "metas @ [\<lparr> filename = chunkFileName (Suc (length metas)),
                          count = length (take chunkSize (drop i e)) \<rparr>]"
      let ?fs1 = "fs(chunkPath (Suc (length metas)) \<mapsto> EnrichedFile (take chunkSize (drop i e)))"
      have "case chunkLoop w e (i + chunkSize) ?metas1 ?fs1 of
              Inl f \<Rightarrow> f p = ?fs1 p | Inr (ms, f) \<Rightarrow> f p = ?fs1 p"
        by (rule "1.IH" [OF True])
      with assms [of "Suc (length metas)"] w True
      show ?thesis by (auto simp: chunkLoop_step split: sum.splits)
    qed
  qed
qed

lemma chunkLoop_succeeds:
  assumes "\<And>p. w p"
  shows "\<exists>r. chunkLoop w e i metas fs = Inr r"
proof (induction i e arbitrary: metas fs rule: slicesFrom.induct)
  case (1 i e)
  show ?case
  proof (cases "i < length e")
    case False
    then show ?thesis by (simp add: chunkLoop_done)
  next
    case True
    with "1.IH" [OF True] assms show ?thesis by (simp add: chunkLoop_step)
  qed
qed

lemma chunkLoop_succeeds_if:
  assumes "\<And>j. j < length (slicesFrom i e) \<Longrightarrow> w (chunkPath (Suc (length metas) + j))"
  shows "\<exists>r. chunkLoop w e i metas fs = Inr r"
  using assms
proof (induction i e arbitrary: metas fs rule: slicesFrom.induct)
  case (1 i e)
  show ?case
  proof (cases "i < length e")
    case False
    then show ?thesis by (simp add: chunkLoop_done)
  next
    case True
    note st = slicesFrom_step [OF True]
    let ?metas1 = "metas @ [\<lparr> filename = chunkFileName (Suc (length metas)),
                        count = length (take chunkSize (drop i e)) \<rparr>]"
    from "1.prems" [of 0] st have w0: "w (chunkPath (Suc (length metas)))" by simp
    have "w (chunkPath (Suc (length ?metas1) + j))"
      if "j < length (slicesFrom (i + chunkSize) e)" for j
      using "1.prems" [of "Suc j"] that st by simp
    from "1.IH" [OF True this] w0 True show ?thesis
      by (simp add: chunkLoop_step)
  qed
qed

subsection \<open>The manifest and the other files\<close>

lemma length_chunkMetas: "length (chunkMetas e) = length (slicesFrom 0 e)"
  by (simp add: chunkMetas_def)

lemma nth_chunkMetas:
  "j < length (slicesFrom 0 e) \<Longrightarrow>
     chunkMetas e ! j = \<lparr> filename = chunkFileName (Suc j), count = length (slicesFrom 0 e ! j) \<rparr>"
  by (simp add: chunkMetas_def nth_enumerate_eq)

lemma count_chunkMetas: "map count (chunkMetas e) = map length (slicesFrom 0 e)"
  by (rule nth_equalityI) (simp_all add: length_chunkMetas nth_chunkMetas)

lemma sum_count_chunkMetas: "sum_list (map count (chunkMetas e)) = length e"
proof -
  have "sum_list (map length (slicesFrom 0 e)) = length (concat (slicesFrom 0 e))"
    by (simp add: length_concat)
  then show ?thesis by (simp add: count_chunkMetas concat_slicesFrom)
qed

lemma writeChunks_Inr:
  assumes "writeChunks w fs e = Inr fs'"
  shows "fs' MANIFEST_PATH =
           Some (ManifestFile \<lparr> total = length e, m_chunkSize = chunkSize,
                   numberOfChunks = length (chunkMetas e), chunks = chunkMetas e \<rparr>) \<and>
         fs' DESC_CLASS_MAP_PATH = Some (ClassMapFile (buildDescClassMap e)) \<and>
         (\<forall>j<length (slicesFrom 0 e).
            fs' (chunkPath (Suc j)) = Some (EnrichedFile (slicesFrom 0 e ! j))) \<and>
         w MANIFEST_PATH \<and> w DESC_CLASS_MAP_PATH \<and>
         (\<forall>j<length (slicesFrom 0 e). w (chunkPath (Suc j)))"
proof -
  let ?fs0 = "rmSync fs ENRICHED_CHUNKS_DIR"
  from assms obtain metas fs1 where loop: "chunkLoop w e 0 [] ?fs0 = Inr (metas, fs1)"
    by (auto simp: writeChunks_def Let_def split: sum.splits)
  from chunkLoop_Inr [OF loop] have metas: "metas = chunkMetas e"
    and files: "\<And>j. j < length (slicesFrom 0 e) \<Longrightarrow>
        w (chunkPath (Suc j)) \<and> fs1 (chunkPath (Suc j)) = Some (EnrichedFile (slicesFrom 0 e ! j))"
    by (simp_all add: chunkMetas_def)
  let ?m = "\<lparr> total = length e, m_chunkSize = chunkSize,
              numberOfChunks = length (chunkMetas e), chunks = chunkMetas e \<rparr>"
  from assms loop metas have wm: "w MANIFEST_PATH" and wd: "w DESC_CLASS_MAP_PATH"
    and fs': "fs' = fs1(MANIFEST_PATH \<mapsto> ManifestFile ?m,
                        DESC_CLASS_MAP_PATH \<mapsto> ClassMapFile (buildDescClassMap e))"
    by (auto simp: writeChunks_def Let_def writeFileSync_def split: if_splits)
  from paths_distinct have ne: "MANIFEST_PATH \<noteq> DESC_CLASS_MAP_PATH" by simp
  have a: "fs' MANIFEST_PATH = Some (ManifestFile ?m)"
    using ne by (simp add: fs')
  have b: "fs' DESC_CLASS_MAP_PATH = Some (ClassMapFile (buildDescClassMap e))"
    by (simp add: fs')
  have c: "fs' (chunkPath (Suc j)) = Some (EnrichedFile (slicesFrom 0 e ! j))"
    if "j < length (slicesFrom 0 e)" for j
    using files [OF that] chunkPath_not_other(1,2) [of "Suc j"] by (simp add: fs')
  from a b c wm wd files show ?thesis by blast
qed

lemma writeChunks_frame:
  assumes "p = OUT_ENRICHED_PUBLIC \<or> p = OUT_SEARCH_INDEX_PUBLIC"
  shows "case writeChunks w fs e of Inl f \<Rightarrow> f p = fs p | Inr f \<Rightarrow> f p = fs p"
proof -
  let ?fs0 = "rmSync fs ENRICHED_CHUNKS_DIR"
  from assms have nc: "\<And>k. p \<noteq> chunkPath k"
    using chunkPath_not_other(3,4) by metis
  from assms paths_distinct have nm: "p \<noteq> MANIFEST_PATH" and nd: "p \<noteq> DESC_CLASS_MAP_PATH"
    by auto
  from assms have rm: "?fs0 p = fs p"
    using rmSync_keeps [of fs] by auto
  have fr: "case chunkLoop w e 0 [] ?fs0 of Inl f \<Rightarrow> f p = ?fs0 p | Inr (ms, f) \<Rightarrow> f p = ?fs0 p"
    by (rule chunkLoop_frame [OF nc])
  show ?thesis
  proof (cases "chunkLoop w e 0 [] ?fs0")
    case (Inl f)
    with fr rm show ?thesis by (simp add: writeChunks_def Let_def)
  next
    case (Inr r)
    obtain ms f where r: "r = (ms, f)" by (cases r)
    from fr Inr r rm have "f p = fs p" by simp
    with Inr r nm nd show ?thesis
      by (simp add: writeChunks_def Let_def writeFileSync_def)
  qed
qed

lemma writeChunks_succeeds_iff:
  "(\<exists>fs'. writeChunks w fs e = Inr fs') \<longleftrightarrow>
     (\<forall>j<length (slicesFrom 0 e). w (chunkPath (Suc j))) \<and> w MANIFEST_PATH \<and> w DESC_CLASS_MAP_PATH"
proof
  assume "\<exists>fs'. writeChunks w fs e = Inr fs'"
  then obtain fs' where "writeChunks w fs e = Inr fs'" by blast
  from writeChunks_Inr [OF this] show
    "(\<forall>j<length (slicesFrom 0 e). w (chunkPath (Suc j))) \<and> w MANIFEST_PATH \<and> w DESC_CLASS_MAP_PATH"
    by blast
next
  assume a: "(\<forall>j<length (slicesFrom 0 e). w (chunkPath (Suc j))) \<and> w MANIFEST_PATH \<and> w DESC_CLASS_MAP_PATH"
  then have "\<exists>r. chunkLoop w e 0 [] (rmSync fs ENRICHED_CHUNKS_DIR) = Inr r"
    by (intro chunkLoop_succeeds_if) simp
  then obtain ms f where "chunkLoop w e 0 [] (rmSync fs ENRICHED_CHUNKS_DIR) = Inr (ms, f)"
    by auto
  with a show "\<exists>fs'. writeChunks w fs e = Inr fs'"
    by (simp add: writeChunks_def Let_def writeFileSync_def)
qed

lemma lengths_8001:
  "length (e :: 'a list) = 8001 \<Longrightarrow> map length (slicesFrom 0 e) = [4000, 4000, 1]"
  by (simp add: slicesFrom_step slicesFrom_done chunkSize_def)

text \<open>
  C4. Whenever the chunks and the manifest are written (the \<open>try\<close> block of \<open>main\<close> ends
  without an exception, which it does when no write fails), the manifest file holds a
  manifest whose total is the number of enriched records and the sum of the chunk counts,
  whose number of chunks is the length of its chunk list, and in which every chunk but
  the last has exactly 4000 records and every chunk has between 1 and 4000. For 8001
  records there are 3 chunks, of 4000, 4000 and 1 records.
\<close>

theorem manifest_consistent:
  "((\<forall>p. writable p) \<longrightarrow> (\<exists>fs'. writeChunks writable fs enriched = Inr fs')) \<and>
   (\<forall>fs'. writeChunks writable fs enriched = Inr fs' \<longrightarrow>
      (\<exists>m. fs' MANIFEST_PATH = Some (ManifestFile m) \<and>
           total m = length enriched \<and>
           total m = sum_list (map count (chunks m)) \<and>
           numberOfChunks m = length (chunks m) \<and>
           m_chunkSize m = 4000 \<and>
           (\<forall>j. Suc j < length (chunks m) \<longrightarrow> count (chunks m ! j) = 4000) \<and>
           (\<forall>c\<in>set (chunks m). 0 < count c \<and> count c \<le> 4000) \<and>
           (length enriched = 8001 \<longrightarrow>
              numberOfChunks m = 3 \<and> map count (chunks m) = [4000, 4000, 1])))"
proof -
  have a: "\<exists>fs'. writeChunks writable fs enriched = Inr fs'" if "\<forall>p. writable p"
    using that by (simp add: writeChunks_succeeds_iff)
  have b: "\<exists>m. fs' MANIFEST_PATH = Some (ManifestFile m) \<and>
           total m = length enriched \<and>
           total m = sum_list (map count (chunks m)) \<and>
           numberOfChunks m = length (chunks m) \<and>
           m_chunkSize m = 4000 \<and>
           (\<forall>j. Suc j < length (chunks m) \<longrightarrow> count (chunks m ! j) = 4000) \<and>
           (\<forall>c\<in>set (chunks m). 0 < count c \<and> count c \<le> 4000) \<and>
           (length enriched = 8001 \<longrightarrow>
              numberOfChunks m = 3 \<and> map count (chunks m) = [4000, 4000, 1])"
    if h: "writeChunks writable fs enriched = Inr fs'" for fs'
  proof -
    let ?m = "\<lparr> total = length enriched, m_chunkSize = chunkSize,
                numberOfChunks = length (chunkMetas enriched), chunks = chunkMetas enriched \<rparr>"
    from writeChunks_Inr [OF h] have f: "fs' MANIFEST_PATH = Some (ManifestFile ?m)" by blast
    have full: "count (chunkMetas enriched ! j) = 4000" if "Suc j < length (chunkMetas enriched)" for j
    proof -
      from that have s: "Suc j < length (slicesFrom 0 enriched)" by (simp add: length_chunkMetas)
      then have "j < length (slicesFrom 0 enriched)" by simp
      from nth_chunkMetas [OF this] slicesFrom_full [OF s] show ?thesis
        by (simp add: chunkSize_def)
    qed
    have bnd: "0 < count c \<and> count c \<le> 4000" if "c \<in> set (chunkMetas enriched)" for c
    proof -
      from that have "count c \<in> set (map count (chunkMetas enriched))" by simp
      then have "count c \<in> length ` set (slicesFrom 0 enriched)"
        by (simp add: count_chunkMetas)
      then obtain s where "s \<in> set (slicesFrom 0 enriched)" "count c = length s" by blast
      with slicesFrom_bounds [of s 0 enriched] show ?thesis by (simp add: chunkSize_def)
    qed
    have sc: "length enriched = 8001 \<Longrightarrow>
        length (chunkMetas enriched) = 3 \<and> map count (chunkMetas enriched) = [4000, 4000, 1]"
    proof -
      assume l: "length enriched = 8001"
      from lengths_8001 [OF l] have "length (map length (slicesFrom 0 enriched)) = 3" by simp
      then have "length (chunkMetas enriched) = 3" by (simp add: length_chunkMetas)
      with lengths_8001 [OF l] show ?thesis by (simp add: count_chunkMetas)
    qed
    have "fs' MANIFEST_PATH = Some (ManifestFile ?m) \<and>
           total ?m = length enriched \<and>
           total ?m = sum_list (map count (chunks ?m)) \<and>
           numberOfChunks ?m = length (chunks ?m) \<and>
           m_chunkSize ?m = 4000 \<and>
           (\<forall>j. Suc j < length (chunks ?m) \<longrightarrow> count (chunks ?m ! j) = 4000) \<and>
           (\<forall>c\<in>set (chunks ?m). 0 < count c \<and> count c \<le> 4000) \<and>
           (length enriched = 8001 \<longrightarrow>
              numberOfChunks ?m = 3 \<and> map count (chunks ?m) = [4000, 4000, 1])"
      using f full bnd sc by (simp add: sum_count_chunkMetas chunkSize_def)
    then show ?thesis by (rule exI)
  qed
  from a b show ?thesis by blast
qed

theorem manifest_consistent_witness:
  "\<exists>fs' m. writeChunks allWritable emptyFs (replicate 8001 (shortRecord exampleMed)) = Inr fs' \<and>
     fs' MANIFEST_PATH = Some (ManifestFile m) \<and>
     total m = 8001 \<and> numberOfChunks m = 3 \<and> map count (chunks m) = [4000, 4000, 1]"
proof -
  let ?e = "replicate 8001 (shortRecord exampleMed)"
  note t = manifest_consistent [of allWritable emptyFs ?e]
  have "\<forall>p. allWritable p" by (simp add: allWritable_def)
  with t obtain fs' where h: "writeChunks allWritable emptyFs ?e = Inr fs'" by blast
  have len: "length ?e = 8001" by simp
  from t [THEN conjunct2, rule_format, OF h]
  obtain m where m: "fs' MANIFEST_PATH = Some (ManifestFile m)"
    "total m = 8001" "numberOfChunks m = 3" "map count (chunks m) = [4000, 4000, 1]"
    by auto
  show ?thesis
    by (rule exI [of _ fs'], rule exI [of _ m]) (simp add: h m)
qed

subsection \<open>The whole run\<close>

lemma enrich_keys:
  "map (\<lambda>r. (ndc_description r, ndc r)) (enrich openIdx uniqueMed) =
     map (\<lambda>e. (ndc_description e, ndc e)) uniqueMed"
  by (simp add: enrich_def enrichRecord_keys)

lemma main_cases:
  "main w fs items meds =
     (let e = enrich (buildOpenFdaIndexes items) meds in
      if \<not> w OUT_ENRICHED_PUBLIC then (1, fs)
      else if \<not> w OUT_SEARCH_INDEX_PUBLIC then (1, fs(OUT_ENRICHED_PUBLIC \<mapsto> EnrichedFile e))
      else (case writeChunks w
                   (fs(OUT_ENRICHED_PUBLIC \<mapsto> EnrichedFile e,
                       OUT_SEARCH_INDEX_PUBLIC \<mapsto> SearchIndexFile (searchDescriptions e))) e of
              Inl fs' \<Rightarrow> (1, fs')
            | Inr fs2 \<Rightarrow> (0, fs2)))"
  by (simp add: main_def enrichMedicaidWithOpenFda_def writeFileSync_def Let_def)

lemma main_exit_zero_iff:
  "fst (main w fs items meds) = 0 \<longleftrightarrow>
     w OUT_ENRICHED_PUBLIC \<and> w OUT_SEARCH_INDEX_PUBLIC \<and>
     (\<forall>j<length (slicesFrom 0 (enrich (buildOpenFdaIndexes items) meds)). w (chunkPath (Suc j))) \<and>
     w MANIFEST_PATH \<and> w DESC_CLASS_MAP_PATH"
proof -
  let ?e = "enrich (buildOpenFdaIndexes items) meds"
  let ?fs2 = "fs(OUT_ENRICHED_PUBLIC \<mapsto> EnrichedFile ?e,
                 OUT_SEARCH_INDEX_PUBLIC \<mapsto> SearchIndexFile (searchDescriptions ?e))"
  have "fst (main w fs items meds) = 0 \<longleftrightarrow>
      w OUT_ENRICHED_PUBLIC \<and> w OUT_SEARCH_INDEX_PUBLIC \<and> (\<exists>fs'. writeChunks w ?fs2 ?e = Inr fs')"
    by (auto simp: main_cases Let_def split: sum.splits)
  then show ?thesis
    unfolding writeChunks_succeeds_iff by blast
qed

lemma main_exit_code: "fst (main w fs items meds) = 0 \<or> fst (main w fs items meds) = 1"
  by (auto simp: main_cases Let_def split: sum.splits)

lemma main_keeps_enriched:
  assumes "w OUT_ENRICHED_PUBLIC"
  shows "snd (main w fs items meds) OUT_ENRICHED_PUBLIC =
           Some (EnrichedFile (enrich (buildOpenFdaIndexes items) meds))"
proof (cases "w OUT_SEARCH_INDEX_PUBLIC")
  case False
  with assms show ?thesis by (simp add: main_cases Let_def)
next
  case True
  let ?e = "enrich (buildOpenFdaIndexes items) meds"
  let ?fs2 = "fs(OUT_ENRICHED_PUBLIC \<mapsto> EnrichedFile ?e,
                 OUT_SEARCH_INDEX_PUBLIC \<mapsto> SearchIndexFile (searchDescriptions ?e))"
  from paths_distinct have ne: "OUT_ENRICHED_PUBLIC \<noteq> OUT_SEARCH_INDEX_PUBLIC" by simp
  have "case writeChunks w ?fs2 ?e of
          Inl f \<Rightarrow> f OUT_ENRICHED_PUBLIC = ?fs2 OUT_ENRICHED_PUBLIC
        | Inr f \<Rightarrow> f OUT_ENRICHED_PUBLIC = ?fs2 OUT_ENRICHED_PUBLIC"
    by (rule writeChunks_frame) simp
  with assms True ne show ?thesis
    by (auto simp: main_cases Let_def split: sum.splits)
qed

lemma main_keeps_search_index:
  assumes "w OUT_ENRICHED_PUBLIC" and "w OUT_SEARCH_INDEX_PUBLIC"
  shows "snd (main w fs items meds) OUT_SEARCH_INDEX_PUBLIC =
           Some (SearchIndexFile (searchDescriptions (enrich (buildOpenFdaIndexes items) meds)))"
proof -
  let ?e = "enrich (buildOpenFdaIndexes items) meds"
  let ?fs2 = "fs(OUT_ENRICHED_PUBLIC \<mapsto> EnrichedFile ?e,
                 OUT_SEARCH_INDEX_PUBLIC \<mapsto> SearchIndexFile (searchDescriptions ?e))"
  have "case writeChunks w ?fs2 ?e of
          Inl f \<Rightarrow> f OUT_SEARCH_INDEX_PUBLIC = ?fs2 OUT_SEARCH_INDEX_PUBLIC
        | Inr f \<Rightarrow> f OUT_SEARCH_INDEX_PUBLIC = ?fs2 OUT_SEARCH_INDEX_PUBLIC"
    by (rule writeChunks_frame) simp
  with assms show ?thesis
    by (auto simp: main_cases Let_def split: sum.splits)
qed

lemma readChunk_chunkMetas:
  assumes "\<And>j. j < length (slicesFrom 0 e) \<Longrightarrow>
             fs' (chunkPath (Suc j)) = Some (EnrichedFile (slicesFrom 0 e ! j))"
  shows "map (readChunk fs') (chunkMetas e) = map Some (slicesFrom 0 e)"
proof (rule nth_equalityI)
  show "length (map (readChunk fs') (chunkMetas e)) = length (map Some (slicesFrom 0 e))"
    by (simp add: length_chunkMetas)
next
  fix j assume "j < length (map (readChunk fs') (chunkMetas e))"
  then have j: "j < length (slicesFrom 0 e)" by (simp add: length_chunkMetas)
  from assms [OF j] j show "map (readChunk fs') (chunkMetas e) ! j = map Some (slicesFrom 0 e) ! j"
    by (simp add: length_chunkMetas nth_chunkMetas readChunk_def chunkPath_def)
qed

text \<open>
  C3. The enriched output has one record per price entry, in the order of the entries, each
  with the description and the identifier of its entry: so an entry of a deduplicated
  input appears exactly once. When the run ends with status 0 (which it does when no write
  fails), the consolidated file holds this list, and reading the chunk files in the order
  of the manifest gives slices whose concatenation is the list of the consolidated file.
\<close>

theorem output_covers_input_and_chunks_rebuild_it:
  "((\<forall>p. writable p) \<longrightarrow> fst (main writable fs items uniqueMed) = 0) \<and>
   (\<forall>fs'. main writable fs items uniqueMed = (0, fs') \<longrightarrow>
      (\<exists>enriched m slices.
         fs' OUT_ENRICHED_PUBLIC = Some (EnrichedFile enriched) \<and>
         length enriched = length uniqueMed \<and>
         map (\<lambda>r. (ndc_description r, ndc r)) enriched =
           map (\<lambda>e. (ndc_description e, ndc e)) uniqueMed \<and>
         (distinct (map (\<lambda>e. (ndc_description e, ndc e)) uniqueMed) \<longrightarrow>
            distinct (map (\<lambda>r. (ndc_description r, ndc r)) enriched)) \<and>
         fs' MANIFEST_PATH = Some (ManifestFile m) \<and>
         map (readChunk fs') (chunks m) = map Some slices \<and>
         concat slices = enriched))"
proof -
  let ?e = "enrich (buildOpenFdaIndexes items) uniqueMed"
  have a: "fst (main writable fs items uniqueMed) = 0" if "\<forall>p. writable p"
    using that by (simp add: main_exit_zero_iff)
  have b: "\<exists>enriched m slices.
         fs' OUT_ENRICHED_PUBLIC = Some (EnrichedFile enriched) \<and>
         length enriched = length uniqueMed \<and>
         map (\<lambda>r. (ndc_description r, ndc r)) enriched =
           map (\<lambda>e. (ndc_description e, ndc e)) uniqueMed \<and>
         (distinct (map (\<lambda>e. (ndc_description e, ndc e)) uniqueMed) \<longrightarrow>
            distinct (map (\<lambda>r. (ndc_description r, ndc r)) enriched)) \<and>
         fs' MANIFEST_PATH = Some (ManifestFile m) \<and>
         map (readChunk fs') (chunks m) = map Some slices \<and>
         concat slices = enriched"
    if h: "main writable fs items uniqueMed = (0, fs')" for fs'
  proof -
    let ?fs2 = "fs(OUT_ENRICHED_PUBLIC \<mapsto> EnrichedFile ?e,
                   OUT_SEARCH_INDEX_PUBLIC \<mapsto> SearchIndexFile (searchDescriptions ?e))"
    let ?m = "\<lparr> total = length ?e, m_chunkSize = chunkSize,
                numberOfChunks = length (chunkMetas ?e), chunks = chunkMetas ?e \<rparr>"
    from h have "fst (main writable fs items uniqueMed) = 0" by simp
    then have w1: "writable OUT_ENRICHED_PUBLIC" by (simp add: main_exit_zero_iff)
    from h w1 have wc: "writeChunks writable ?fs2 ?e = Inr fs'"
      by (auto simp: main_cases Let_def split: if_splits sum.splits)
    from main_keeps_enriched [of writable fs items uniqueMed] w1 h
    have f1: "fs' OUT_ENRICHED_PUBLIC = Some (EnrichedFile ?e)" by simp
    from writeChunks_Inr [OF wc] have f2: "fs' MANIFEST_PATH = Some (ManifestFile ?m)"
      and f3: "\<And>j. j < length (slicesFrom 0 ?e) \<Longrightarrow>
             fs' (chunkPath (Suc j)) = Some (EnrichedFile (slicesFrom 0 ?e ! j))"
      by blast+
    have f4: "map (readChunk fs') (chunks ?m) = map Some (slicesFrom 0 ?e)"
      using readChunk_chunkMetas [of ?e fs', OF f3] by simp
    have f5: "concat (slicesFrom 0 ?e) = ?e" by (simp add: concat_slicesFrom)
    have f6: "length ?e = length uniqueMed" by (simp add: enrich_def)
    have f7: "map (\<lambda>r. (ndc_description r, ndc r)) ?e =
           map (\<lambda>e. (ndc_description e, ndc e)) uniqueMed" by (rule enrich_keys)
    have "fs' OUT_ENRICHED_PUBLIC = Some (EnrichedFile ?e) \<and>
         length ?e = length uniqueMed \<and>
         map (\<lambda>r. (ndc_description r, ndc r)) ?e =
           map (\<lambda>e. (ndc_description e, ndc e)) uniqueMed \<and>
         (distinct (map (\<lambda>e. (ndc_description e, ndc e)) uniqueMed) \<longrightarrow>
            distinct (map (\<lambda>r. (ndc_description r, ndc r)) ?e)) \<and>
         fs' MANIFEST_PATH = Some (ManifestFile ?m) \<and>
         map (readChunk fs') (chunks ?m) = map Some (slicesFrom 0 ?e) \<and>
         concat (slicesFrom 0 ?e) = ?e"
      using f1 f2 f4 f5 f6 f7 by simp
    then show ?thesis by (intro exI)
  qed
  from a b show ?thesis by blast
qed

theorem output_covers_input_and_chunks_rebuild_it_witness:
  "fst (main allWritable emptyFs exampleItems [exampleMed]) = 0 \<and>
   (\<exists>enriched m slices.
      snd (main allWritable emptyFs exampleItems [exampleMed]) OUT_ENRICHED_PUBLIC =
        Some (EnrichedFile enriched) \<and>
      length enriched = length [exampleMed] \<and>
      snd (main allWritable emptyFs exampleItems [exampleMed]) MANIFEST_PATH =
        Some (ManifestFile m) \<and>
      map (readChunk (snd (main allWritable emptyFs exampleItems [exampleMed]))) (chunks m) =
        map Some slices \<and>
      concat slices = enriched)"
proof -
  note t = output_covers_input_and_chunks_rebuild_it [of allWritable emptyFs exampleItems "[exampleMed]"]
  have "\<forall>p. allWritable p" by (simp add: allWritable_def)
  with t have z: "fst (main allWritable emptyFs exampleItems [exampleMed]) = 0" by blast
  then have h: "main allWritable emptyFs exampleItems [exampleMed] =
      (0, snd (main allWritable emptyFs exampleItems [exampleMed]))"
    by (metis prod.collapse)
  from t [THEN conjunct2, rule_format, OF h] z show ?thesis by blast
qed

text \<open>
  C9, as the code has it. The run ends with status 0 exactly when every write succeeds:
  the consolidated output, the search index, each chunk file, the manifest and the
  classification lookup; when any of these writes fails it ends with status 1. Nothing is
  staged: each file is written to its final path as soon as it is computed, in that order,
  and a later failure does not take it back. The consolidated output is at its final path
  after every run in which its own write succeeded, and so is the search index, whether
  the run ends with status 0 or 1.
\<close>

theorem failed_write_exits_one_and_keeps_written_files:
  "(fst (main writable fs items uniqueMed) = 0 \<longleftrightarrow>
      writable OUT_ENRICHED_PUBLIC \<and> writable OUT_SEARCH_INDEX_PUBLIC \<and>
      (\<forall>j<length (slicesFrom 0 (enrich (buildOpenFdaIndexes items) uniqueMed)).
         writable (chunkPath (Suc j))) \<and>
      writable MANIFEST_PATH \<and> writable DESC_CLASS_MAP_PATH) \<and>
   (fst (main writable fs items uniqueMed) \<noteq> 0 \<longrightarrow> fst (main writable fs items uniqueMed) = 1) \<and>
   (writable OUT_ENRICHED_PUBLIC \<longrightarrow>
      snd (main writable fs items uniqueMed) OUT_ENRICHED_PUBLIC =
        Some (EnrichedFile (enrich (buildOpenFdaIndexes items) uniqueMed))) \<and>
   (writable OUT_ENRICHED_PUBLIC \<and> writable OUT_SEARCH_INDEX_PUBLIC \<longrightarrow>
      snd (main writable fs items uniqueMed) OUT_SEARCH_INDEX_PUBLIC =
        Some (SearchIndexFile
          (searchDescriptions (enrich (buildOpenFdaIndexes items) uniqueMed))))"
proof (intro conjI impI)
  show "fst (main writable fs items uniqueMed) = 0 \<longleftrightarrow>
      writable OUT_ENRICHED_PUBLIC \<and> writable OUT_SEARCH_INDEX_PUBLIC \<and>
      (\<forall>j<length (slicesFrom 0 (enrich (buildOpenFdaIndexes items) uniqueMed)).
         writable (chunkPath (Suc j))) \<and>
      writable MANIFEST_PATH \<and> writable DESC_CLASS_MAP_PATH"
    by (rule main_exit_zero_iff)
next
  assume "fst (main writable fs items uniqueMed) \<noteq> 0"
  with main_exit_code [of writable fs items uniqueMed]
  show "fst (main writable fs items uniqueMed) = 1" by simp
next
  assume "writable OUT_ENRICHED_PUBLIC"
  then show "snd (main writable fs items uniqueMed) OUT_ENRICHED_PUBLIC =
        Some (EnrichedFile (enrich (buildOpenFdaIndexes items) uniqueMed))"
    by (rule main_keeps_enriched)
next
  assume "writable OUT_ENRICHED_PUBLIC \<and> writable OUT_SEARCH_INDEX_PUBLIC"
  then show "snd (main writable fs items uniqueMed) OUT_SEARCH_INDEX_PUBLIC =
        Some (SearchIndexFile
          (searchDescriptions (enrich (buildOpenFdaIndexes items) uniqueMed)))"
    by (simp add: main_keeps_search_index)
qed

theorem failed_write_exits_one_and_keeps_written_files_witness:
  "\<not> allButManifestWritable MANIFEST_PATH \<and>
   fst (main allButManifestWritable emptyFs exampleItems [exampleMed]) = 1 \<and>
   allButManifestWritable OUT_ENRICHED_PUBLIC \<and>
   snd (main allButManifestWritable emptyFs exampleItems [exampleMed]) OUT_ENRICHED_PUBLIC =
     Some (EnrichedFile (enrich (buildOpenFdaIndexes exampleItems) [exampleMed]))"
proof -
  note t = failed_write_exits_one_and_keeps_written_files
    [of allButManifestWritable emptyFs exampleItems "[exampleMed]"]
  have nm: "\<not> allButManifestWritable MANIFEST_PATH"
    by (simp add: allButManifestWritable_def)
  have we: "allButManifestWritable OUT_ENRICHED_PUBLIC"
    using paths_distinct by (simp add: allButManifestWritable_def)
  from t [THEN conjunct1] nm
  have "fst (main allButManifestWritable emptyFs exampleItems [exampleMed]) \<noteq> 0"
    by simp
  with t [THEN conjunct2, THEN conjunct1]
  have one: "fst (main allButManifestWritable emptyFs exampleItems [exampleMed]) = 1"
    by simp
  from t [THEN conjunct2, THEN conjunct2, THEN conjunct1] we
  have "snd (main allButManifestWritable emptyFs exampleItems [exampleMed])
      OUT_ENRICHED_PUBLIC = Some (EnrichedFile (enrich (buildOpenFdaIndexes exampleItems) [exampleMed]))"
    by simp
  with nm we one show ?thesis by simp
qed

theorem partial_outputs_published_counterexample:
  "fst (main allButManifestWritable emptyFs exampleItems [exampleMed]) = 1 \<and>
   snd (main allButManifestWritable emptyFs exampleItems [exampleMed]) OUT_ENRICHED_PUBLIC \<noteq> None \<and>
   snd (main allButManifestWritable emptyFs exampleItems [exampleMed]) OUT_SEARCH_INDEX_PUBLIC =
     Some (SearchIndexFile [''FOO 10 MG TABLET'']) \<and>
   snd (main allButManifestWritable emptyFs exampleItems [exampleMed]) (chunkPath 1) \<noteq> None \<and>
   snd (main allButManifestWritable emptyFs exampleItems [exampleMed]) MANIFEST_PATH = None \<and>
   snd (main allButManifestWritable emptyFs exampleItems [exampleMed]) DESC_CLASS_MAP_PATH = None"
  by code_simp

end
